theory Spec2Isabelle
  imports Main "HOL-Library.Multiset"
begin

section \<open>Measurement state and the iteration protocol\<close>

text \<open>
  Clock readings and durations are nanosecond counts (\<open>high_res_clock::rep\<close> is
  \<open>long long\<close>, \<open>duration_ns\<close> is \<open>int64_t\<close>). They are modelled as \<open>int\<close>:
  signed overflow is undefined in the source language, so the model describes the
  executions that stay inside the 64-bit range. The build modelled is the default one,
  where \<open>_PICOBENCH_ASSERT\<close> expands to nothing.
\<close>

datatype error =
    EndDereference      \<comment> \<open>\<open>*b->_istate\<close> with \<open>_istate == _states.end()\<close>\<close>
  | DivisionByZero      \<comment> \<open>integer division by 0\<close>
  | CounterNeverZero    \<comment> \<open>an iterator counter below 0 is decremented without reaching 0\<close>
  | DanglingPointer     \<comment> \<open>a benchmark pointer that refers to no registered benchmark\<close>
  | NullDereference     \<comment> \<open>a null pointer is dereferenced\<close>

record state =
  iterations :: int      \<comment> \<open>\<open>_iterations\<close>\<close>
  duration_ns :: int     \<comment> \<open>\<open>_duration_ns\<close>\<close>
  start :: int           \<comment> \<open>\<open>_start\<close>, a clock reading\<close>

text \<open>The constructor \<open>state(int num_iterations)\<close>; \<open>_duration_ns\<close> defaults to 0 and
  \<open>_start\<close> to the clock's epoch.\<close>

definition new_state :: "int \<Rightarrow> state" where
  "new_state num_iterations = \<lparr>iterations = num_iterations, duration_ns = 0, start = 0\<rparr>"

text \<open>\<open>high_res_clock::now()\<close> is passed in as the clock reading \<open>now\<close>.\<close>

definition start_timer :: "int \<Rightarrow> state \<Rightarrow> state" where
  "start_timer now s = s\<lparr>start := now\<rparr>"

definition stop_timer :: "int \<Rightarrow> state \<Rightarrow> state" where
  "stop_timer now s = s\<lparr>duration_ns := now - start s\<rparr>"

text \<open>\<open>state::iterator\<close>. The \<open>_state\<close> pointer is the parent state for an iterator made by
  \<open>begin\<close> and null for the one made by \<open>end\<close>.\<close>

record iterator =
  counter :: int
  has_state :: bool

definition state_begin :: "int \<Rightarrow> state \<Rightarrow> iterator \<times> state" where
  "state_begin now s =
     (let s' = start_timer now s
      in (\<lparr>counter = iterations s', has_state = True\<rparr>, s'))"

definition state_end :: iterator where
  "state_end = \<lparr>counter = 0, has_state = False\<rparr>"

definition op_inc :: "iterator \<Rightarrow> iterator" where
  "op_inc it = it\<lparr>counter := counter it - 1\<rparr>"

text \<open>\<open>operator!=\<close> ignores its argument; when the counter is 0 it stops the timer of the
  parent state.\<close>

definition op_neq :: "int \<Rightarrow> iterator \<Rightarrow> iterator \<Rightarrow> state \<Rightarrow> error + (bool \<times> state)" where
  "op_neq now it other s =
     (if counter it \<noteq> 0 then Inr (True, s)
      else if has_state it then Inr (False, stop_timer now s)
      else Inl NullDereference)"

text \<open>
  The range-based for loop \<open>for (auto _ : state) body;\<close>, that is
  \<open>for (auto b = state.begin(), e = state.end(); b != e; ++b) body;\<close>.
  The body is user code; it is modelled by its effect on the clock (under the test clock,
  \<open>this_thread_sleep_for_ns\<close>). A counter below 0 cannot reach 0 by decrements before
  it overflows, so the model reports \<open>CounterNeverZero\<close> for it.
\<close>

function for_loop :: "(int \<Rightarrow> int) \<Rightarrow> iterator \<Rightarrow> iterator \<Rightarrow> state \<Rightarrow> int \<Rightarrow> error + (state \<times> int)" where
  "for_loop body b e s now =
     (if counter b < 0 then Inl CounterNeverZero
      else case op_neq now b e s of
             Inl err \<Rightarrow> Inl err
           | Inr (c, s') \<Rightarrow>
               if c then for_loop body (op_inc b) e s' (body now)
               else Inr (s', now))"
  by pat_completeness auto

termination
  by (relation "measure (\<lambda>(body, b, e, s, now). nat (counter b))")
     (auto simp: op_neq_def op_inc_def split: if_splits)

declare for_loop.simps [simp del]

definition range_for :: "(int \<Rightarrow> int) \<Rightarrow> state \<Rightarrow> int \<Rightarrow> error + (state \<times> int)" where
  "range_for body s now =
     (let (b, s') = state_begin now s
      in for_loop body b state_end s' now)"

text \<open>The manual helper \<open>scope\<close>: the constructor starts the timer, the destructor stops it.\<close>

definition scope :: "(int \<Rightarrow> int) \<Rightarrow> state \<Rightarrow> int \<Rightarrow> state \<times> int" where
  "scope body s now =
     (let s' = start_timer now s; now' = body now
      in (stop_timer now' s', now'))"

section \<open>Benchmarks and the registry\<close>

text \<open>
  A \<open>benchmark_proc\<close> is a \<open>void(*)(state&)\<close>: it may change the state it is given and
  let the clock advance, or fail and abort the run.
\<close>

type_synonym benchmark_proc = "state \<Rightarrow> int \<Rightarrow> error + (state \<times> int)"

text \<open>\<open>benchmark_impl\<close> with the members of its base class \<open>benchmark\<close>; \<open>_istate\<close> is the
  offset of the iterator from \<open>_states.begin()\<close>.\<close>

record benchmark_impl =
  name :: string
  proc :: benchmark_proc
  baseline :: bool
  state_iterations :: "int list"
  samples :: int
  states :: "state list"
  istate :: nat

definition benchmark :: "string \<Rightarrow> benchmark_proc \<Rightarrow> benchmark_impl" where
  "benchmark nm pr =
     \<lparr>name = nm, proc = pr, baseline = False, state_iterations = [], samples = 0,
      states = [], istate = 0\<rparr>"

text \<open>
  \<open>suite_map\<close> is an \<open>unordered_map\<close> from the suite name (a pointer, possibly null) to the
  deque of the benchmarks the suite owns. It is modelled as the list of its entries in the
  order in which the map is iterated. A \<open>benchmark_impl*\<close> is the position of the
  benchmark: entry number and offset within the deque.
\<close>

type_synonym benchmarks_vector = "benchmark_impl list"

type_synonym suite_map = "(string option \<times> benchmarks_vector) list"

type_synonym bptr = "nat \<times> nat"

definition new_benchmark :: "string \<Rightarrow> benchmark_proc \<Rightarrow> benchmarks_vector \<Rightarrow> benchmarks_vector" where
  "new_benchmark nm pr current = current @ [benchmark nm pr]"

definition deref :: "suite_map \<Rightarrow> bptr \<Rightarrow> benchmark_impl option" where
  "deref reg p =
     (case p of (i, j) \<Rightarrow>
        if i < length reg \<and> j < length (snd (reg ! i)) then Some (snd (reg ! i) ! j)
        else None)"

definition assign :: "suite_map \<Rightarrow> bptr \<Rightarrow> benchmark_impl \<Rightarrow> suite_map" where
  "assign reg p b =
     (case p of (i, j) \<Rightarrow> reg[i := (fst (reg ! i), (snd (reg ! i))[j := b])])"

record runner =
  default_state_iterations :: "int list"
  default_samples :: int

definition new_runner :: runner where
  "new_runner = \<lparr>default_state_iterations = [8, 64, 512, 4096, 8196], default_samples = 1\<rparr>"

section \<open>The random engine\<close>

text \<open>
  \<open>std::minstd_rand\<close> is the standard library's
  \<open>linear_congruential_engine<uint_fast32_t, 48271, 0, 2147483647>\<close>: seeding with \<open>s\<close>
  sets the engine to \<open>s mod m\<close>, or to 1 when that is 0, and each call multiplies the engine
  by 48271 modulo \<open>m\<close> and returns it. An \<open>int\<close> seed is first converted to
  \<open>uint_fast32_t\<close>, whose width \<open>w\<close> depends on the platform.
\<close>

definition minstd_rand :: "nat \<Rightarrow> int \<Rightarrow> nat" where
  "minstd_rand w random_seed =
     (let s = nat (random_seed mod 2 ^ w)
      in if s mod 2147483647 = 0 then 1 else s mod 2147483647)"

definition rnd :: "nat \<Rightarrow> nat \<times> nat" where
  "rnd g = (let g' = (48271 * g) mod 2147483647 in (g', g'))"

text \<open>\<open>random_seed = std::random_device()()\<close> stores an \<open>unsigned int\<close> in an \<open>int\<close>.\<close>

definition to_int32 :: "nat \<Rightarrow> int" where
  "to_int32 u = (let v = int (u mod 2 ^ 32) in if v < 2 ^ 31 then v else v - 2 ^ 32)"

definition choose_seed :: "nat \<Rightarrow> int \<Rightarrow> int" where
  "choose_seed random_device random_seed =
     (if random_seed = -1 then to_int32 random_device else random_seed)"

section \<open>The runner\<close>

subsection \<open>Collecting the benchmarks and identifying the baselines\<close>

definition found_baseline :: "benchmarks_vector \<Rightarrow> bool" where
  "found_baseline bs = foldl (\<lambda>found rb. if baseline rb then True else found) False bs"

definition identify_baseline :: "benchmarks_vector \<Rightarrow> benchmarks_vector" where
  "identify_baseline bs =
     (case bs of
        [] \<Rightarrow> []
      | front # rest \<Rightarrow> if \<not> found_baseline bs then front\<lparr>baseline := True\<rparr> # rest else bs)"

definition identify_baselines :: "suite_map \<Rightarrow> suite_map" where
  "identify_baselines reg = map (\<lambda>suite. (fst suite, identify_baseline (snd suite))) reg"

definition all_benchmarks :: "suite_map \<Rightarrow> bptr list" where
  "all_benchmarks reg =
     concat (map (\<lambda>i. map (\<lambda>j. (i, j)) [0..<length (snd (reg ! i))]) [0..<length reg])"

subsection \<open>Initialising the benchmarks\<close>

definition effective_iterations :: "runner \<Rightarrow> benchmark_impl \<Rightarrow> int list" where
  "effective_iterations r b =
     (if state_iterations b = [] then default_state_iterations r else state_iterations b)"

definition emplace :: "nat \<Rightarrow> 'a \<Rightarrow> 'a list \<Rightarrow> 'a list" where
  "emplace index x xs = take index xs @ x # drop index xs"

text \<open>The loop \<open>for (int i = 0; i < b->_samples; ++i)\<close>, with the number of its rounds.\<close>

fun fill_samples :: "nat \<Rightarrow> int \<Rightarrow> nat \<Rightarrow> state list \<Rightarrow> nat \<times> state list" where
  "fill_samples 0 iters g sts = (g, sts)"
| "fill_samples (Suc n) iters g sts =
     (let (v, g') = rnd g;
          index = v mod (length sts + 1)
      in fill_samples n iters g' (emplace index (new_state iters) sts))"

fun fill_states :: "int list \<Rightarrow> nat \<Rightarrow> nat \<Rightarrow> state list \<Rightarrow> nat \<times> state list" where
  "fill_states [] n g sts = (g, sts)"
| "fill_states (iters # rest) n g sts =
     (let (g', sts') = fill_samples n iters g sts
      in fill_states rest n g' sts')"

definition initialize :: "runner \<Rightarrow> nat \<Rightarrow> benchmark_impl \<Rightarrow> nat \<times> benchmark_impl" where
  "initialize r g b =
     (let its = effective_iterations r b;
          b1 = (if samples b = 0 then b\<lparr>samples := default_samples r\<rparr> else b);
          (g', sts) = fill_states its (nat (samples b1)) g (states b1)
      in (g', b1\<lparr>states := sts, istate := 0\<rparr>))"

fun initialize_all :: "runner \<Rightarrow> bptr list \<Rightarrow> nat \<Rightarrow> suite_map \<Rightarrow> error + (nat \<times> suite_map)" where
  "initialize_all r [] g reg = Inr (g, reg)"
| "initialize_all r (p # ps) g reg =
     (case deref reg p of
        None \<Rightarrow> Inl DanglingPointer
      | Some b \<Rightarrow>
          (let (g', b') = initialize r g b
           in initialize_all r ps g' (assign reg p b')))"

subsection \<open>Running the benchmarks in random order\<close>

text \<open>An executed unit: the benchmark, the offset of the state within \<open>_states\<close>, and the
  \<open>iterations\<close> of the state when the benchmark procedure was called on it.\<close>

type_synonym unit_run = "bptr \<times> nat \<times> int"

definition erase :: "nat \<Rightarrow> 'a list \<Rightarrow> 'a list" where
  "erase i xs = take i xs @ drop (Suc i) xs"

text \<open>One round of the \<open>while\<close> loop, entered with a non-empty vector.\<close>

definition run_one ::
  "nat \<Rightarrow> bptr list \<Rightarrow> suite_map \<Rightarrow> int \<Rightarrow> error + (nat \<times> bptr list \<times> suite_map \<times> int \<times> unit_run)" where
  "run_one g benchmarks reg now =
     (let (v, g') = rnd g;
          i = v mod length benchmarks;
          p = benchmarks ! i
      in case deref reg p of
           None \<Rightarrow> Inl DanglingPointer
         | Some b \<Rightarrow>
             if length (states b) \<le> istate b then Inl EndDereference
             else case proc b (states b ! istate b) now of
                    Inl err \<Rightarrow> Inl err
                  | Inr (s', now') \<Rightarrow>
                      (let b' = b\<lparr>states := (states b)[istate b := s'], istate := Suc (istate b)\<rparr>;
                           benchmarks' = (if istate b' = length (states b') then erase i benchmarks
                                          else benchmarks)
                       in Inr (g', benchmarks', assign reg p b', now',
                               (p, istate b, iterations (states b ! istate b)))))"

definition remaining :: "suite_map \<Rightarrow> nat" where
  "remaining reg =
     sum_list (map (\<lambda>suite. sum_list (map (\<lambda>b. length (states b) - istate b) (snd suite))) reg)"

text \<open>Every completed round moves one \<open>_istate\<close> forward, which bounds the loop.\<close>

lemma sum_list_map_update_less:
  fixes f :: "'a \<Rightarrow> nat"
  assumes "j < length xs" "f y < f (xs ! j)"
  shows "sum_list (map f (xs[j := y])) < sum_list (map f xs)"
  using assms
proof (induction xs arbitrary: j)
  case Nil
  then show ?case by simp
next
  case (Cons x xs)
  then show ?case by (cases j) auto
qed

lemma remaining_assign_less:
  assumes "deref reg p = Some b"
    and "length (states b') - istate b' < length (states b) - istate b"
  shows "remaining (assign reg p b') < remaining reg"
proof -
  obtain i j where p: "p = (i, j)" by (cases p)
  from assms(1) have i: "i < length reg" and j: "j < length (snd (reg ! i))"
    and b: "b = snd (reg ! i) ! j"
    by (auto simp: deref_def p split: if_splits)
  let ?f = "\<lambda>b. length (states b) - istate b"
  let ?F = "\<lambda>suite :: string option \<times> benchmarks_vector. sum_list (map ?f (snd suite))"
  have "?F (fst (reg ! i), (snd (reg ! i))[j := b']) < ?F (reg ! i)"
    using sum_list_map_update_less[of j "snd (reg ! i)" ?f b'] j assms(2) b by simp
  then have "sum_list (map ?F (reg[i := (fst (reg ! i), (snd (reg ! i))[j := b'])])) < sum_list (map ?F reg)"
    using sum_list_map_update_less[of i reg ?F] i by blast
  then show ?thesis by (simp add: remaining_def assign_def p)
qed

lemma run_one_remaining:
  assumes "run_one g benchmarks reg now = Inr (g', benchmarks', reg', now', u)"
  shows "remaining reg' < remaining reg"
proof -
  obtain v g1 where r: "rnd g = (v, g1)" by (cases "rnd g")
  let ?p = "benchmarks ! (v mod length benchmarks)"
  from assms obtain b where b: "deref reg ?p = Some b"
    by (auto simp: run_one_def r Let_def split: option.splits)
  from assms b have lt: "istate b < length (states b)"
    by (auto simp: run_one_def r Let_def split: if_splits)
  from assms b lt obtain s' where
    "reg' = assign reg ?p (b\<lparr>states := (states b)[istate b := s'], istate := Suc (istate b)\<rparr>)"
    by (auto simp: run_one_def r Let_def split: sum.splits)
  then show ?thesis using remaining_assign_less[OF b] lt by simp
qed

text \<open>The loop \<open>while (!benchmarks.empty())\<close>.\<close>

function run_loop ::
  "nat \<Rightarrow> bptr list \<Rightarrow> suite_map \<Rightarrow> int \<Rightarrow> unit_run list \<Rightarrow> error + (suite_map \<times> int \<times> unit_run list)" where
  "run_loop g benchmarks reg now executed =
     (if benchmarks = [] then Inr (reg, now, executed)
      else case run_one g benchmarks reg now of
             Inl err \<Rightarrow> Inl err
           | Inr (g', benchmarks', reg', now', u) \<Rightarrow>
               run_loop g' benchmarks' reg' now' (executed @ [u]))"
  by pat_completeness auto

termination
  by (relation "measure (\<lambda>(g, benchmarks, reg, now, executed). remaining reg)")
     (auto dest: run_one_remaining)

declare run_loop.simps [simp del]

subsection \<open>Generating the report\<close>

text \<open>The structs of \<open>report\<close>. Members that share a name in the source carry the initials
  of their struct: \<open>ps_samples\<close> is \<open>benchmark_problem_space::samples\<close>, \<open>rb_name\<close> is
  \<open>report::benchmark::name\<close>, \<open>rs_name\<close> is \<open>report::suite::name\<close>.\<close>

record benchmark_problem_space =
  dimension :: int
  ps_samples :: int
  total_time_ns :: int

record report_benchmark =
  rb_name :: string
  is_baseline :: bool
  data :: "benchmark_problem_space list"

record report_suite =
  rs_name :: "string option"
  benchmarks :: "report_benchmark list"

record report =
  suites :: "report_suite list"

text \<open>Integer division of the source language: it truncates towards zero, and dividing
  by 0 ends the program.\<close>

definition tdiv :: "int \<Rightarrow> int \<Rightarrow> int" where
  "tdiv a b = sgn a * sgn b * (\<bar>a\<bar> div \<bar>b\<bar>)"

definition cdiv :: "int \<Rightarrow> int \<Rightarrow> error + int" where
  "cdiv a b = (if b = 0 then Inl DivisionByZero else Inr (tdiv a b))"

fun traverse :: "('a \<Rightarrow> error + 'b) \<Rightarrow> 'a list \<Rightarrow> error + 'b list" where
  "traverse f [] = Inr []"
| "traverse f (x # xs) =
     (case f x of
        Inl err \<Rightarrow> Inl err
      | Inr y \<Rightarrow> (case traverse f xs of Inl err \<Rightarrow> Inl err | Inr ys \<Rightarrow> Inr (y # ys)))"

text \<open>The inner loop \<open>for (auto& d : rpt_benchmark->data)\<close> for one state.\<close>

definition accumulate :: "state \<Rightarrow> benchmark_problem_space list \<Rightarrow> benchmark_problem_space list" where
  "accumulate st ds =
     map (\<lambda>d. if iterations st = dimension d
               then d\<lparr>total_time_ns := total_time_ns d + duration_ns st,
                      ps_samples := ps_samples d + 1\<rparr>
               else d) ds"

definition average_out :: "benchmark_problem_space \<Rightarrow> error + benchmark_problem_space" where
  "average_out d =
     (case cdiv (total_time_ns d) (ps_samples d) of
        Inl err \<Rightarrow> Inl err
      | Inr avg \<Rightarrow> Inr (d\<lparr>total_time_ns := avg\<rparr>))"

definition build_benchmark :: "runner \<Rightarrow> benchmark_impl \<Rightarrow> error + report_benchmark" where
  "build_benchmark r b =
     (let its = effective_iterations r b;
          d0 = map (\<lambda>d. \<lparr>dimension = d, ps_samples = 0, total_time_ns = 0\<rparr>) its;
          d1 = foldl (\<lambda>ds st. accumulate st ds) d0 (states b)
      in case traverse average_out d1 of
           Inl err \<Rightarrow> Inl err
         | Inr d2 \<Rightarrow> Inr \<lparr>rb_name = name b, is_baseline = baseline b, data = d2\<rparr>)"

definition build_suite :: "runner \<Rightarrow> string option \<times> benchmarks_vector \<Rightarrow> error + report_suite" where
  "build_suite r suite =
     (case traverse (build_benchmark r) (snd suite) of
        Inl err \<Rightarrow> Inl err
      | Inr bs \<Rightarrow> Inr \<lparr>rs_name = fst suite, benchmarks = bs\<rparr>)"

definition generate_report :: "runner \<Rightarrow> suite_map \<Rightarrow> error + report" where
  "generate_report r reg =
     (case traverse (build_suite r) reg of
        Inl err \<Rightarrow> Inl err
      | Inr ss \<Rightarrow> Inr \<lparr>suites = ss\<rparr>)"

subsection \<open>\<open>run_benchmarks\<close>\<close>

text \<open>What a call leaves behind: the report it returns, the registered suites as it has
  changed them, the clock, and the units in the order in which they were executed.\<close>

record run_result =
  rpt :: report
  registered_suites :: suite_map
  clock :: int
  executed :: "unit_run list"

text \<open>The body of \<open>run_benchmarks\<close> from the seeded engine \<open>rnd\<close> on.\<close>

definition run_seeded :: "runner \<Rightarrow> nat \<Rightarrow> suite_map \<Rightarrow> int \<Rightarrow> error + run_result" where
  "run_seeded r g reg now =
     (let reg1 = identify_baselines reg;
          benchmarks = all_benchmarks reg1
      in case initialize_all r benchmarks g reg1 of
           Inl err \<Rightarrow> Inl err
         | Inr (g1, reg2) \<Rightarrow>
             (case run_loop g1 benchmarks reg2 now [] of
                Inl err \<Rightarrow> Inl err
              | Inr (reg3, now', ex) \<Rightarrow>
                  (case generate_report r reg3 of
                     Inl err \<Rightarrow> Inl err
                   | Inr rp \<Rightarrow>
                       Inr \<lparr>rpt = rp, registered_suites = reg3, clock = now', executed = ex\<rparr>)))"

text \<open>\<open>run_benchmarks(random_seed)\<close> on a platform whose \<open>uint_fast32_t\<close> has \<open>w\<close> bits, where
  \<open>std::random_device\<close> would return \<open>random_device\<close>, with the registered suites \<open>reg\<close>
  and the clock at \<open>now\<close>.\<close>

definition run_benchmarks ::
  "runner \<Rightarrow> nat \<Rightarrow> nat \<Rightarrow> int \<Rightarrow> suite_map \<Rightarrow> int \<Rightarrow> error + run_result" where
  "run_benchmarks r w random_device random_seed reg now =
     run_seeded r (minstd_rand w (choose_seed random_device random_seed)) reg now"

section \<open>Rendering the report\<close>

text \<open>
  \<open>report::to_text\<close> writes characters to a stream; the model returns them. The texts of the
  floating-point values are left to the stream: \<open>fixed3 a b\<close> is what
  \<open>fixed << setprecision(3) << double(a) / double(b)\<close> writes and \<open>ops_per_second n t\<close> what
  \<open>fixed << setprecision(1) << n * (1000000000.0 / double(t))\<close> writes.
\<close>

record float_output =
  fixed3 :: "int \<Rightarrow> int \<Rightarrow> string"
  ops_per_second :: "int \<Rightarrow> int \<Rightarrow> string"

definition newline :: char where
  "newline = CHR 0x0A"

definition line :: string where
  "line = replicate 80 CHR ''_'' @ [newline]"

definition setw :: "nat \<Rightarrow> string \<Rightarrow> string" where
  "setw n s = replicate (n - length s) CHR '' '' @ s"

fun show_nat :: "nat \<Rightarrow> string" where
  "show_nat n = (if n < 10 then [char_of (48 + n)] else show_nat (n div 10) @ [char_of (48 + n mod 10)])"

declare show_nat.simps [simp del]

definition show_int :: "int \<Rightarrow> string" where
  "show_int i = (if i < 0 then CHR ''-'' # show_nat (nat (- i)) else show_nat (nat i))"

record problem_space_benchmark =
  psb_name :: string
  psb_is_baseline :: bool
  psb_total_time_ns :: int

text \<open>A \<open>std::map<int, std::vector<problem_space_benchmark>>\<close> is the list of its entries in
  ascending order of the keys; \<open>res[k].push_back(x)\<close> finds or makes the entry of \<open>k\<close>.\<close>

fun push_back_at ::
  "int \<Rightarrow> problem_space_benchmark \<Rightarrow> (int \<times> problem_space_benchmark list) list \<Rightarrow>
   (int \<times> problem_space_benchmark list) list" where
  "push_back_at k x [] = [(k, [x])]"
| "push_back_at k x ((k', xs) # rest) =
     (if k = k' then (k', xs @ [x]) # rest
      else if k < k' then (k, [x]) # (k', xs) # rest
      else (k', xs) # push_back_at k x rest)"

definition get_problem_space_view :: "report_suite \<Rightarrow> (int \<times> problem_space_benchmark list) list" where
  "get_problem_space_view s =
     foldl (\<lambda>res bm.
        foldl (\<lambda>res d. push_back_at (dimension d)
                 \<lparr>psb_name = rb_name bm, psb_is_baseline = is_baseline bm,
                  psb_total_time_ns = total_time_ns d\<rparr> res)
          res (data bm))
       [] (benchmarks s)"

text \<open>The first benchmark of a problem space that is a baseline, with its position.\<close>

fun find_baseline :: "nat \<Rightarrow> problem_space_benchmark list \<Rightarrow> (nat \<times> problem_space_benchmark) option" where
  "find_baseline n [] = None"
| "find_baseline n (bm # rest) =
     (if psb_is_baseline bm then Some (n, bm) else find_baseline (Suc n) rest)"

definition to_text_row ::
  "float_output \<Rightarrow> int \<Rightarrow> (nat \<times> problem_space_benchmark) option \<Rightarrow>
   nat \<times> problem_space_benchmark \<Rightarrow> error + string" where
  "to_text_row fo first baseline_ptr nbm =
     (case nbm of (n, bm) \<Rightarrow>
        (case cdiv (psb_total_time_ns bm) first of
          Inl err \<Rightarrow> Inl err
        | Inr ns_op \<Rightarrow>
            Inr ((if psb_is_baseline bm then setw 23 (psb_name bm) @ '' *''
                  else setw 25 (psb_name bm))
                 @ '' |'' @ setw 8 (show_int first) @ '' |''
                 @ setw 10 (fixed3 fo (psb_total_time_ns bm) 1000000) @ '' |''
                 @ setw 8 (show_int ns_op) @ '' |''
                 @ (case baseline_ptr of
                      None \<Rightarrow> ''    ??? |''
                    | Some (k, bl) \<Rightarrow>
                        if k = n then ''      - |''
                        else setw 7 (fixed3 fo (psb_total_time_ns bm) (psb_total_time_ns bl)) @ '' |'')
                 @ setw 11 (ops_per_second fo first (psb_total_time_ns bm)) @ [newline])))"

definition to_text_problem_space ::
  "float_output \<Rightarrow> int \<times> problem_space_benchmark list \<Rightarrow> error + string" where
  "to_text_problem_space fo ps =
     (case traverse (to_text_row fo (fst ps) (find_baseline 0 (snd ps)))
             (zip [0..<length (snd ps)] (snd ps)) of
        Inl err \<Rightarrow> Inl err
      | Inr rows \<Rightarrow> Inr (concat rows))"

definition to_text_suite :: "float_output \<Rightarrow> report_suite \<Rightarrow> error + string" where
  "to_text_suite fo suite =
     (case traverse (to_text_problem_space fo) (get_problem_space_view suite) of
        Inl err \<Rightarrow> Inl err
      | Inr rows \<Rightarrow>
          Inr ((case rs_name suite of None \<Rightarrow> [] | Some nm \<Rightarrow> nm @ '':'' @ [newline])
               @ line
               @ ''   Name (baseline is *)   |   Dim   |  Total ms |  ns/op  |Baseline| Ops/second''
               @ [newline]
               @ line
               @ concat rows
               @ line))"

definition to_text :: "float_output \<Rightarrow> report \<Rightarrow> error + string" where
  "to_text fo rp =
     (case traverse (to_text_suite fo) (suites rp) of
        Inl err \<Rightarrow> Inl err
      | Inr texts \<Rightarrow> Inr (concat texts))"

section \<open>Vocabulary of the properties\<close>

text \<open>The sample count that \<open>if (b->_samples == 0) b->_samples = _default_samples\<close> leaves in
  \<open>_samples\<close>, and the states the two nested loops construct, in the order of construction.\<close>

definition effective_samples :: "runner \<Rightarrow> benchmark_impl \<Rightarrow> int" where
  "effective_samples r b = (if samples b = 0 then default_samples r else samples b)"

definition generated :: "runner \<Rightarrow> benchmark_impl \<Rightarrow> state list" where
  "generated r b =
     concat (map (\<lambda>iters. replicate (nat (effective_samples r b)) (new_state iters))
       (effective_iterations r b))"

text \<open>\<open>initialized r b b'\<close>: \<open>b'\<close> is \<open>b\<close> after the initialisation loop body, for some state of
  the random engine. The engine decides only where the new states are placed.\<close>

definition initialized :: "runner \<Rightarrow> benchmark_impl \<Rightarrow> benchmark_impl \<Rightarrow> bool" where
  "initialized r b b' \<longleftrightarrow>
     b' = b\<lparr>samples := effective_samples r b, states := states b', istate := 0\<rparr> \<and>
     mset (states b') = mset (states b) + mset (generated r b)"

text \<open>\<open>related ps R reg reg'\<close>: the two registries have the same suites and the same pointers;
  the benchmarks behind the pointers in \<open>ps\<close> are related by \<open>R\<close>, the others are equal.\<close>

definition related :: "bptr set \<Rightarrow> (benchmark_impl \<Rightarrow> benchmark_impl \<Rightarrow> bool) \<Rightarrow> suite_map \<Rightarrow> suite_map \<Rightarrow> bool" where
  "related ps R reg reg' \<longleftrightarrow>
     map fst reg' = map fst reg \<and>
     (\<forall>q. deref reg q = None \<longrightarrow> deref reg' q = None) \<and>
     (\<forall>q b. deref reg q = Some b \<longrightarrow>
        (\<exists>b'. deref reg' q = Some b' \<and> (q \<in> ps \<longrightarrow> R b b') \<and> (q \<notin> ps \<longrightarrow> b' = b)))"

text \<open>The units a benchmark has still to execute; a benchmark that the loop can pick (its
  iterator is not at the end and its procedure returns on every pending state); and the
  relation between a benchmark and what the loop leaves of it: every state from \<open>_istate\<close> on has
  been handed to the procedure once, the states before it are untouched.\<close>

definition pending :: "suite_map \<Rightarrow> bptr \<Rightarrow> unit_run list" where
  "pending reg p =
     (case deref reg p of
        None \<Rightarrow> []
      | Some b \<Rightarrow> map (\<lambda>i. (p, i, iterations (states b ! i))) [istate b..<length (states b)])"

definition ready :: "benchmark_impl \<Rightarrow> bool" where
  "ready b \<longleftrightarrow>
     istate b < length (states b) \<and>
     (\<forall>i t. istate b \<le> i \<longrightarrow> i < length (states b) \<longrightarrow> (\<exists>res. proc b (states b ! i) t = Inr res))"

definition ran :: "benchmark_impl \<Rightarrow> benchmark_impl \<Rightarrow> bool" where
  "ran b b' \<longleftrightarrow>
     b' = b\<lparr>states := states b', istate := length (states b)\<rparr> \<and>
     length (states b') = length (states b) \<and>
     (\<forall>i<istate b. states b' ! i = states b ! i) \<and>
     (\<forall>i. istate b \<le> i \<longrightarrow> i < length (states b) \<longrightarrow>
        (\<exists>t t'. proc b (states b ! i) t = Inr (states b' ! i, t')))"

definition samples_of :: "state list \<Rightarrow> int \<Rightarrow> state list" where
  "samples_of sts w = filter (\<lambda>st. iterations st = w) sts"

definition average :: "state list \<Rightarrow> int \<Rightarrow> benchmark_problem_space" where
  "average sts w =
     \<lparr>dimension = w,
      ps_samples = int (length (samples_of sts w)),
      total_time_ns = tdiv (sum_list (map duration_ns (samples_of sts w)))
                           (int (length (samples_of sts w)))\<rparr>"

text \<open>
  A procedure honours a state when, whatever the clock, it returns and leaves the
  \<open>iterations\<close> of the state as they were (the iteration protocol and the timer never
  change them). A
  benchmark is runnable when its sample count is positive, it has a workload size, and
  its procedure honours every state whose \<open>iterations\<close> is one of its workload sizes or
  that of a state it already holds.
\<close>

definition honours :: "benchmark_proc \<Rightarrow> state \<Rightarrow> bool" where
  "honours pr s \<longleftrightarrow> (\<forall>now. \<exists>s' now'. pr s now = Inr (s', now') \<and> iterations s' = iterations s)"

definition runnable :: "runner \<Rightarrow> benchmark_impl \<Rightarrow> bool" where
  "runnable r b \<longleftrightarrow>
     0 < effective_samples r b \<and> effective_iterations r b \<noteq> [] \<and>
     (\<forall>s. iterations s \<in> set (effective_iterations r b) \<union> iterations ` set (states b)
          \<longrightarrow> honours (proc b) s)"

text \<open>Two registries agree when they hold benchmarks behind the same pointers and, pointer
  by pointer, the iterators are at the same offset and the pending states have the same
  \<open>iterations\<close>.\<close>

definition agree :: "suite_map \<Rightarrow> suite_map \<Rightarrow> bool" where
  "agree ra rb \<longleftrightarrow>
     (\<forall>q. (deref ra q = None \<longleftrightarrow> deref rb q = None) \<and>
          (\<forall>a b. deref ra q = Some a \<longrightarrow> deref rb q = Some b \<longrightarrow>
             istate a = istate b \<and> length (states a) = length (states b) \<and>
             (\<forall>k. istate a \<le> k \<longrightarrow> k < length (states a) \<longrightarrow>
                  iterations (states a ! k) = iterations (states b ! k))))"

text \<open>\<open>left_by r res i j b b'\<close>: the run with result \<open>res\<close> has made \<open>b'\<close> of the registered
  benchmark \<open>b\<close> at position \<open>j\<close> of suite \<open>i\<close>.\<close>

definition left_by :: "runner \<Rightarrow> run_result \<Rightarrow> nat \<Rightarrow> nat \<Rightarrow> benchmark_impl \<Rightarrow> benchmark_impl \<Rightarrow> bool" where
  "left_by r res i j b b' \<longleftrightarrow>
     deref (registered_suites res) (i, j) = Some b' \<and>
     runnable r b' \<and>
     effective_iterations r b' = effective_iterations r b \<and>
     effective_samples r b' = effective_samples r b \<and>
     samples b' = effective_samples r b \<and>
     length (states b') =
       length (states b) + length (effective_iterations r b) * nat (effective_samples r b) \<and>
     (\<forall>v. length (samples_of (states b') v) =
          length (samples_of (states b) v) +
          count_list (effective_iterations r b) v * nat (effective_samples r b)) \<and>
     mset (map (\<lambda>u. fst (snd u)) (filter (\<lambda>u. fst u = (i, j)) (executed res))) =
       mset [0..<length (states b')] \<and>
     data (benchmarks (suites (rpt res) ! i) ! j) =
       map (average (states b')) (effective_iterations r b)"

text \<open>
  The placement in the words of the specification. The new states of a benchmark are
  generated workload size by workload size, sample count many for each (\<open>generated\<close>).
  \<open>place g new sts\<close> inserts them one after the other into the sequence \<open>sts\<close> of the
  benchmark: each time the engine is advanced, and the position is its output modulo the
  number of states the sequence holds so far plus one, so one of \<open>0, \<dots>, size\<close>; the states
  before the position stay before the new one, the others follow it. It returns the engine
  and the sequence. It is written without the functions of the runner, to be compared with
  them.
\<close>

fun place :: "nat \<Rightarrow> state list \<Rightarrow> state list \<Rightarrow> nat \<times> state list" where
  "place g [] sts = (g, sts)"
| "place g (x # new) sts =
     (let v = (48271 * g) mod 2147483647;
          position = v mod (length sts + 1)
      in place v new (take position sts @ [x] @ drop position sts))"

text \<open>The engine after the benchmarks behind the pointers \<open>ps\<close> have been initialised in turn.\<close>

definition engine_after :: "runner \<Rightarrow> suite_map \<Rightarrow> nat \<Rightarrow> bptr list \<Rightarrow> nat" where
  "engine_after r reg g ps =
     foldl (\<lambda>g p. case deref reg p of
                     None \<Rightarrow> g
                   | Some b \<Rightarrow> fst (place g (generated r b) (states b))) g ps"


section \<open>The registries of the examples\<close>

text \<open>The benchmark procedure \<open>for (auto _ : state) this_thread_sleep_for_ns(k);\<close> of the
  tests: every execution of the loop body advances the fake clock by \<open>k\<close> nanoseconds.\<close>

definition sleeper :: "int \<Rightarrow> benchmark_proc" where
  "sleeper k = range_for (\<lambda>t. t + k)"

text \<open>The registry of the scenario: suite \<open>S\<close> with the baseline \<open>A\<close>, whose body takes 100 ns,
  on one workload size, and \<open>B\<close>, whose body takes 300 ns, on two workload sizes with two
  samples each.\<close>

definition bench_A :: benchmark_impl where
  "bench_A = (benchmark ''A'' (sleeper 100))\<lparr>baseline := True, state_iterations := [10], samples := 1\<rparr>"

definition bench_B :: benchmark_impl where
  "bench_B = (benchmark ''B'' (sleeper 300))\<lparr>state_iterations := [10, 20], samples := 2\<rparr>"

definition scenario :: suite_map where
  "scenario = [(Some ''S'', [bench_A, bench_B])]"

text \<open>The suite of the scenario with both benchmarks flagged by the user.\<close>

definition two_baselines :: suite_map where
  "two_baselines = [(Some ''S'', [bench_A, bench_B\<lparr>baseline := True\<rparr>])]"

text \<open>The benchmark \<open>D\<close> lists the workload size 3 twice.\<close>

definition bench_D :: benchmark_impl where
  "bench_D = (benchmark ''D'' (sleeper 1))\<lparr>state_iterations := [3, 5, 3], samples := 2\<rparr>"

definition duplicates :: suite_map where
  "duplicates = [(None, [bench_D])]"

text \<open>The benchmark \<open>W\<close> has three workload sizes with two samples each; the registry
  \<open>shuffled\<close> holds it behind \<open>A\<close> in the suite without a name, so that the engine reaches it
  after one draw.\<close>

definition bench_W :: benchmark_impl where
  "bench_W = (benchmark ''W'' (sleeper 1))\<lparr>state_iterations := [1, 2, 3], samples := 2\<rparr>"

definition shuffled :: suite_map where
  "shuffled = [(None, [bench_A, bench_W])]"


section \<open>The iteration protocol measures the loop body\<close>

lemma for_loop_counts:
  "for_loop body \<lparr>counter = int n, has_state = True\<rparr> e s now =
     Inr (stop_timer ((body ^^ n) now) s, (body ^^ n) now)"
proof (induction n arbitrary: now)
  case 0
  show ?case by (subst for_loop.simps) (simp add: op_neq_def)
next
  case (Suc n)
  have "for_loop body \<lparr>counter = int (Suc n), has_state = True\<rparr> e s now =
        for_loop body \<lparr>counter = int n, has_state = True\<rparr> e s (body now)"
    by (subst for_loop.simps) (simp add: op_neq_def op_inc_def)
  then show ?case by (simp add: Suc funpow_swap1)
qed

lemma range_for_nonneg:
  assumes "0 \<le> iterations s"
  shows "range_for body s now =
     Inr (s\<lparr>start := now, duration_ns := (body ^^ nat (iterations s)) now - now\<rparr>,
          (body ^^ nat (iterations s)) now)"
proof -
  obtain n where n: "iterations s = int n"
    using assms by (metis nat_0_le)
  show ?thesis
    unfolding range_for_def state_begin_def
    by (simp add: n for_loop_counts start_timer_def stop_timer_def Let_def)
qed

lemma range_for_negative:
  assumes "iterations s < 0"
  shows "range_for body s now = Inl CounterNeverZero"
  unfolding range_for_def state_begin_def
  using assms by (simp add: Let_def start_timer_def for_loop.simps)

lemma funpow_sleep: "((\<lambda>t. t + k) ^^ n) now = now + k * int n"
  by (induction n) (simp_all add: algebra_simps)

lemma sleeper_eq:
  "sleeper k s now =
     (if iterations s < 0 then Inl CounterNeverZero
      else Inr (s\<lparr>start := now, duration_ns := k * iterations s\<rparr>, now + k * iterations s))"
  by (simp add: sleeper_def range_for_negative range_for_nonneg funpow_sleep)

lemma honours_sleeper: "0 \<le> iterations s \<Longrightarrow> honours (sleeper k) s"
  by (simp add: honours_def sleeper_eq)

text \<open>
  Claim C2. For a state with \<open>n = iterations s > 0\<close>, driving the range-based for loop to
  completion returns (it does not fail), and the clock it leaves is the clock it found
  after exactly \<open>n\<close> executions of the loop body. The timer is started in \<open>begin\<close>, at the
  clock reading before the first execution of the body, and \<open>duration_ns\<close> is set once the
  counter is 0 to the clock advance of those \<open>n\<close> executions; nothing else of the state
  changes.
\<close>

theorem C2_range_for_measures_n_bodies:
  assumes "0 < iterations s"
  shows "range_for body s now =
     Inr (s\<lparr>start := now, duration_ns := (body ^^ nat (iterations s)) now - now\<rparr>,
          (body ^^ nat (iterations s)) now)"
  using assms by (simp add: range_for_nonneg)

theorem C2_witness:
  "0 < iterations (new_state 3) \<and>
   range_for (\<lambda>t. t + 7) (new_state 3) 100 =
     Inr (\<lparr>iterations = 3, duration_ns = 21, start = 100\<rparr>, 121)"
  using C2_range_for_measures_n_bodies [of "new_state 3" "\<lambda>t. t + 7" 100]
  by (simp add: new_state_def eval_nat_numeral)

section \<open>Benchmark pointers\<close>

lemma deref_assign:
  assumes "deref reg p = Some b0"
  shows "deref (assign reg p b) q = (if q = p then Some b else deref reg q)"
proof -
  obtain i j where p: "p = (i, j)" by (cases p)
  obtain i' j' where q: "q = (i', j')" by (cases q)
  from assms have i: "i < length reg" and j: "j < length (snd (reg ! i))"
    by (auto simp: deref_def p split: if_splits)
  show ?thesis
  proof (cases "i' = i")
    case True
    then show ?thesis using i j
      by (auto simp: deref_def assign_def p q nth_list_update)
  next
    case False
    then show ?thesis using i j
      by (auto simp: deref_def assign_def p q nth_list_update)
  qed
qed

lemma map_fst_assign: "map fst (assign reg p b) = map fst reg"
proof -
  obtain i j where p: "p = (i, j)" by (cases p)
  show ?thesis
    by (cases "i < length reg") (simp_all add: assign_def p map_update list_update_same_conv list_update_beyond)
qed

lemma in_all_benchmarks: "p \<in> set (all_benchmarks reg) \<longleftrightarrow> deref reg p \<noteq> None"
  by (cases p) (force simp: all_benchmarks_def deref_def)

lemma distinct_pointer_rows:
  "distinct (concat (map (\<lambda>i. map (\<lambda>j. (i, j)) [0..<f i]) [0..<n]))"
proof (induction n)
  case 0
  show ?case by simp
next
  case (Suc n)
  have "distinct (map (\<lambda>j. (n, j)) [0..<f n])"
    by (simp add: distinct_map inj_on_def)
  with Suc show ?case by auto
qed

lemma distinct_all_benchmarks: "distinct (all_benchmarks reg)"
  unfolding all_benchmarks_def by (rule distinct_pointer_rows)

lemma deref_Some_iff:
  "deref reg (i, j) = Some b \<longleftrightarrow> i < length reg \<and> j < length (snd (reg ! i)) \<and> b = snd (reg ! i) ! j"
  by (auto simp: deref_def)

section \<open>Initialisation generates the configured states\<close>

lemma mset_emplace: "index \<le> length xs \<Longrightarrow> mset (emplace index x xs) = add_mset x (mset xs)"
proof -
  have "mset (take index xs) + mset (drop index xs) = mset xs"
    by (metis append_take_drop_id mset_append)
  then show ?thesis by (simp add: emplace_def)
qed

lemma fill_samples_mset:
  "mset (snd (fill_samples n iters g sts)) = mset sts + replicate_mset n (new_state iters)"
proof (induction n arbitrary: g sts)
  case 0
  show ?case by simp
next
  case (Suc n)
  obtain v g' where r: "rnd g = (v, g')" by (cases "rnd g")
  have "v mod (length sts + 1) \<le> length sts"
    by (metis Suc_eq_plus1 less_Suc_eq_le mod_less_divisor zero_less_Suc)
  then show ?case by (simp add: r Suc mset_emplace)
qed

lemma fill_states_mset:
  "mset (snd (fill_states its n g sts)) =
     mset sts + mset (concat (map (\<lambda>iters. replicate n (new_state iters)) its))"
proof (induction its arbitrary: g sts)
  case Nil
  show ?case by simp
next
  case (Cons iters rest)
  obtain g' sts' where f: "fill_samples n iters g sts = (g', sts')"
    by (cases "fill_samples n iters g sts")
  have "mset sts' = mset sts + replicate_mset n (new_state iters)"
    using fill_samples_mset[of n iters g sts] by (simp add: f)
  then show ?case by (simp add: f Cons)
qed

lemma initialize_initialized: "initialized r b (snd (initialize r g b))"
proof -
  let ?b1 = "if samples b = 0 then b\<lparr>samples := default_samples r\<rparr> else b"
  have s: "samples ?b1 = effective_samples r b" "states ?b1 = states b"
    by (simp_all add: effective_samples_def)
  obtain g' sts where f: "fill_states (effective_iterations r b) (nat (effective_samples r b)) g (states b) = (g', sts)"
    by (cases "fill_states (effective_iterations r b) (nat (effective_samples r b)) g (states b)")
  have "mset sts = mset (states b) + mset (generated r b)"
    using fill_states_mset[of "effective_iterations r b" "nat (effective_samples r b)" g "states b"]
    by (simp add: f generated_def)
  moreover have "snd (initialize r g b) = ?b1\<lparr>states := sts, istate := 0\<rparr>"
    using f unfolding initialize_def Let_def s by simp
  ultimately show ?thesis
    by (simp add: initialized_def effective_samples_def)
qed

lemma related_refl: "related {} R reg reg"
  by (simp add: related_def)

lemma initialize_all_related:
  assumes "distinct ps" and "\<forall>p\<in>set ps. deref reg p \<noteq> None"
  shows "\<exists>g' reg'. initialize_all r ps g reg = Inr (g', reg') \<and> related (set ps) (initialized r) reg reg'"
  using assms
proof (induction ps arbitrary: g reg)
  case Nil
  then show ?case by (simp add: related_refl)
next
  case (Cons p ps)
  from Cons.prems obtain b where b: "deref reg p = Some b" by auto
  obtain g1 b1 where i: "initialize r g b = (g1, b1)" by (cases "initialize r g b")
  have b1: "initialized r b b1" using initialize_initialized[of r b g] by (simp add: i)
  let ?reg1 = "assign reg p b1"
  have d: "deref ?reg1 q = (if q = p then Some b1 else deref reg q)" for q
    by (rule deref_assign[OF b])
  have "distinct ps" "\<forall>q\<in>set ps. deref ?reg1 q \<noteq> None"
    using Cons.prems by (auto simp: d)
  from Cons.IH[OF this, of g1] obtain g' reg' where
    r: "initialize_all r ps g1 ?reg1 = Inr (g', reg')" and
    rel: "related (set ps) (initialized r) ?reg1 reg'"
    by blast
  have p: "p \<notin> set ps" using Cons.prems by simp
  have "initialize_all r (p # ps) g reg = Inr (g', reg')"
    by (simp add: b i r)
  moreover have "related (set (p # ps)) (initialized r) reg reg'"
    unfolding related_def
  proof (intro conjI allI impI)
    show "map fst reg' = map fst reg"
      using rel by (simp add: related_def map_fst_assign)
  next
    fix q assume "deref reg q = None"
    then have "deref ?reg1 q = None" using b by (auto simp: d)
    then show "deref reg' q = None" using rel unfolding related_def by blast
  next
    fix q bq assume q: "deref reg q = Some bq"
    show "\<exists>b'. deref reg' q = Some b' \<and>
              (q \<in> set (p # ps) \<longrightarrow> initialized r bq b') \<and> (q \<notin> set (p # ps) \<longrightarrow> b' = bq)"
    proof (cases "q = p")
      case True
      then have "deref ?reg1 q = Some b1" "bq = b" using q b by (simp_all add: d)
      then show ?thesis using rel p True b1 unfolding related_def by fastforce
    next
      case False
      then have "deref ?reg1 q = Some bq" using q by (simp add: d)
      then show ?thesis using rel False unfolding related_def by fastforce
    qed
  qed
  ultimately show ?case by blast
qed

section \<open>The scheduling loop executes every pending state once\<close>

lemma mset_erase: "i < length xs \<Longrightarrow> mset (erase i xs) = mset xs - {#xs ! i#}"
proof -
  assume "i < length xs"
  then have "xs = take i xs @ xs ! i # drop (Suc i) xs" by (rule id_take_nth_drop)
  then have "mset xs = add_mset (xs ! i) (mset (erase i xs))"
    by (metis erase_def mset.simps(2) mset_append union_mset_add_mset_right)
  then show ?thesis by simp
qed

lemma distinct_erase:
  assumes "distinct xs"
  shows "distinct (erase i xs)"
proof -
  have "distinct (take i xs @ drop i xs)" using assms by simp
  then have "distinct (take i xs)" "distinct (drop i xs)" "set (take i xs) \<inter> set (drop i xs) = {}"
    unfolding distinct_append by blast+
  moreover have "set (drop (Suc i) xs) \<subseteq> set (drop i xs)"
    by (rule set_drop_subset_set_drop) simp
  moreover have "distinct (drop (Suc i) xs)" using assms by simp
  ultimately show ?thesis unfolding erase_def distinct_append by blast
qed

lemma set_erase:
  assumes "distinct xs" "i < length xs"
  shows "set (erase i xs) = set xs - {xs ! i}"
proof -
  have xs: "xs = take i xs @ xs ! i # drop (Suc i) xs"
    using assms(2) by (rule id_take_nth_drop)
  then have "distinct (take i xs @ xs ! i # drop (Suc i) xs)" using assms(1) by simp
  then have "xs ! i \<notin> set (take i xs)" "xs ! i \<notin> set (drop (Suc i) xs)" by auto
  moreover have "set xs = set (take i xs) \<union> {xs ! i} \<union> set (drop (Suc i) xs)"
    by (subst xs) simp
  ultimately show ?thesis unfolding erase_def by auto
qed

lemma run_one_ready:
  assumes ne: "ws \<noteq> []"
    and rdy: "\<forall>p\<in>set ws. \<exists>b. deref reg p = Some b \<and> ready b"
  obtains g' i b s' now' where
    "i < length ws" "deref reg (ws ! i) = Some b" "ready b"
    "proc b (states b ! istate b) now = Inr (s', now')"
    "run_one g ws reg now =
       Inr (g', if Suc (istate b) = length (states b) then erase i ws else ws,
            assign reg (ws ! i) (b\<lparr>states := (states b)[istate b := s'], istate := Suc (istate b)\<rparr>),
            now', (ws ! i, istate b, iterations (states b ! istate b)))"
proof -
  obtain v g' where r: "rnd g = (v, g')" by (cases "rnd g")
  let ?i = "v mod length ws"
  have i: "?i < length ws" using ne by simp
  then have "ws ! ?i \<in> set ws" by simp
  with rdy obtain b where b: "deref reg (ws ! ?i) = Some b" "ready b" by blast
  then have lt: "istate b < length (states b)" by (simp add: ready_def)
  with b(2) obtain res where "proc b (states b ! istate b) now = Inr res"
    unfolding ready_def by blast
  then obtain s' now' where pr: "proc b (states b ! istate b) now = Inr (s', now')"
    by (cases res) auto
  have "run_one g ws reg now =
       Inr (g', if Suc (istate b) = length (states b) then erase ?i ws else ws,
            assign reg (ws ! ?i) (b\<lparr>states := (states b)[istate b := s'], istate := Suc (istate b)\<rparr>),
            now', (ws ! ?i, istate b, iterations (states b ! istate b)))"
    using lt by (simp add: run_one_def r b pr Let_def)
  with i b pr show thesis by (rule that)
qed

lemma pending_step:
  assumes b: "deref reg p = Some b" and lt: "istate b < length (states b)"
  shows "pending reg p =
     (p, istate b, iterations (states b ! istate b)) #
     pending (assign reg p (b\<lparr>states := (states b)[istate b := s'], istate := Suc (istate b)\<rparr>)) p"
proof -
  have "[istate b..<length (states b)] = istate b # [Suc (istate b)..<length (states b)]"
    using lt by (rule upt_conv_Cons)
  then show ?thesis
    by (simp add: pending_def b deref_assign[OF b])
qed

lemma pending_other:
  assumes "deref reg p = Some b" "q \<noteq> p"
  shows "pending (assign reg p b') q = pending reg q"
  using assms by (simp add: pending_def deref_assign[OF assms(1)])

lemma ran_step:
  assumes lt: "istate b < length (states b)"
    and pr: "proc b (states b ! istate b) now = Inr (s', now')"
    and r: "ran (b\<lparr>states := (states b)[istate b := s'], istate := Suc (istate b)\<rparr>) b'"
  shows "ran b b'"
proof -
  let ?b1 = "b\<lparr>states := (states b)[istate b := s'], istate := Suc (istate b)\<rparr>"
  from r have eq: "b' = ?b1\<lparr>states := states b', istate := length (states ?b1)\<rparr>"
    and len: "length (states b') = length (states b)"
    and old: "\<forall>i<Suc (istate b). states b' ! i = (states b)[istate b := s'] ! i"
    and new: "\<forall>i. Suc (istate b) \<le> i \<longrightarrow> i < length (states b) \<longrightarrow>
        (\<exists>t t'. proc b ((states b)[istate b := s'] ! i) t = Inr (states b' ! i, t'))"
    by (simp_all add: ran_def)
  have 1: "b' = b\<lparr>states := states b', istate := length (states b)\<rparr>"
    by (subst eq) simp
  have 2: "\<forall>i<istate b. states b' ! i = states b ! i"
    using old by (simp add: nth_list_update less_Suc_eq)
  have 3: "\<exists>t t'. proc b (states b ! i) t = Inr (states b' ! i, t')"
    if "istate b \<le> i" "i < length (states b)" for i
  proof (cases "i = istate b")
    case True
    then have "states b' ! i = s'" using old lt by simp
    then show ?thesis using pr True by blast
  next
    case False
    then have "Suc (istate b) \<le> i" using that by simp
    then show ?thesis using new that False by (simp add: nth_list_update)
  qed
  show ?thesis unfolding ran_def using 1 2 3 len by blast
qed

lemma ran_last:
  assumes fin: "Suc (istate b) = length (states b)"
    and pr: "proc b (states b ! istate b) now = Inr (s', now')"
  shows "ran b (b\<lparr>states := (states b)[istate b := s'], istate := Suc (istate b)\<rparr>)"
proof -
  have "\<exists>t t'. proc b (states b ! i) t = Inr ((states b)[istate b := s'] ! i, t')"
    if "istate b \<le> i" "i < length (states b)" for i
  proof -
    have "i = istate b" using that fin by simp
    then show ?thesis using pr that by auto
  qed
  then show ?thesis unfolding ran_def using fin by (auto simp: nth_list_update)
qed

lemma ready_step:
  assumes "ready b" "Suc (istate b) \<noteq> length (states b)"
  shows "ready (b\<lparr>states := (states b)[istate b := s'], istate := Suc (istate b)\<rparr>)"
  using assms unfolding ready_def by (auto simp: nth_list_update)

lemma run_one_Inr:
  assumes one: "run_one g ws reg now = Inr (g', ws', reg1, now', u)" and ne: "ws \<noteq> []"
  obtains i b s' where
    "i < length ws" "deref reg (ws ! i) = Some b" "istate b < length (states b)"
    "proc b (states b ! istate b) now = Inr (s', now')"
    "ws' = (if Suc (istate b) = length (states b) then erase i ws else ws)"
    "reg1 = assign reg (ws ! i) (b\<lparr>states := (states b)[istate b := s'], istate := Suc (istate b)\<rparr>)"
    "u = (ws ! i, istate b, iterations (states b ! istate b))"
proof -
  obtain v g1 where r: "rnd g = (v, g1)" by (cases "rnd g")
  let ?i = "v mod length ws"
  have i: "?i < length ws" using ne by simp
  from one obtain b where b: "deref reg (ws ! ?i) = Some b"
    by (auto simp: run_one_def r Let_def split: option.splits)
  from one b have lt: "istate b < length (states b)"
    by (auto simp: run_one_def r Let_def split: if_splits)
  from one b lt obtain s' where pr: "proc b (states b ! istate b) now = Inr (s', now')"
    by (auto simp: run_one_def r Let_def split: sum.splits)
  from one have
    "ws' = (if Suc (istate b) = length (states b) then erase ?i ws else ws)"
    "reg1 = assign reg (ws ! ?i) (b\<lparr>states := (states b)[istate b := s'], istate := Suc (istate b)\<rparr>)"
    "u = (ws ! ?i, istate b, iterations (states b ! istate b))"
    using lt by (simp_all add: run_one_def r b pr Let_def)
  with i b lt pr show thesis by (rule that)
qed

lemma run_loop_returns:
  assumes "distinct ws" and "\<forall>p\<in>set ws. \<exists>b. deref reg p = Some b \<and> ready b"
  shows "\<exists>res. run_loop g ws reg now tr = Inr res"
  using assms
proof (induction "remaining reg" arbitrary: g ws reg now tr rule: less_induct)
  case less
  show ?case
  proof (cases "ws = []")
    case True
    then show ?thesis by (subst run_loop.simps) simp
  next
    case False
    show ?thesis
    proof (rule run_one_ready[OF False less.prems(2), of now g], goal_cases)
      case (1 g' i b s' now')
      note i = 1(1) and b = 1(2) and rdy = 1(3) and pr = 1(4) and one = 1(5)
      define p where "p = ws ! i"
      define b1 where "b1 = b\<lparr>states := (states b)[istate b := s'], istate := Suc (istate b)\<rparr>"
      define reg1 where "reg1 = assign reg p b1"
      define ws' where "ws' = (if Suc (istate b) = length (states b) then erase i ws else ws)"
      define u where "u = (p, istate b, iterations (states b ! istate b))"
      note one' = one[folded p_def, folded b1_def, folded reg1_def ws'_def u_def]
      have bp: "deref reg p = Some b" using b by (simp add: p_def)
      have d: "deref reg1 q = (if q = p then Some b1 else deref reg q)" for q
        unfolding reg1_def by (rule deref_assign[OF bp])
      have sub: "set ws' = (if Suc (istate b) = length (states b) then set ws - {p} else set ws)"
        using set_erase[OF less.prems(1) i] by (simp add: ws'_def p_def)
      have dis: "distinct ws'"
        using less.prems(1) by (simp add: ws'_def distinct_erase)
      have rdy': "\<forall>q\<in>set ws'. \<exists>b. deref reg1 q = Some b \<and> ready b"
      proof
        fix q assume q: "q \<in> set ws'"
        show "\<exists>b. deref reg1 q = Some b \<and> ready b"
        proof (cases "q = p")
          case True
          then have "Suc (istate b) \<noteq> length (states b)" using q sub by auto
          then have "ready b1" unfolding b1_def by (rule ready_step[OF rdy])
          then show ?thesis using True by (simp add: d)
        next
          case False
          moreover have "q \<in> set ws" using q sub by (auto split: if_splits)
          ultimately show ?thesis using less.prems(2) by (simp add: d)
        qed
      qed
      have "remaining reg1 < remaining reg"
        using one' by (rule run_one_remaining)
      from less.hyps[OF this dis rdy', of g' now' "tr @ [u]"]
      obtain res where "run_loop g' ws' reg1 now' (tr @ [u]) = Inr res" by blast
      then have "run_loop g ws reg now tr = Inr res"
        by (subst run_loop.simps) (simp add: False one')
      then show ?thesis by blast
    qed
  qed
qed

lemma run_loop_related:
  assumes "distinct ws" and "run_loop g ws reg now tr = Inr (reg', now', tr')"
  shows "\<exists>ex. tr' = tr @ ex \<and> related (set ws) ran reg reg' \<and>
              mset ex = (\<Sum>p\<in>#mset ws. mset (pending reg p))"
  using assms
proof (induction "remaining reg" arbitrary: g ws reg now tr rule: less_induct)
  case less
  show ?case
  proof (cases "ws = []")
    case True
    then show ?thesis
      using less.prems(2) by (subst (asm) run_loop.simps) (simp add: related_refl)
  next
    case False
    from less.prems(2) obtain g1 ws' reg1 now1 u where
      one: "run_one g ws reg now = Inr (g1, ws', reg1, now1, u)" and
      run: "run_loop g1 ws' reg1 now1 (tr @ [u]) = Inr (reg', now', tr')"
      by (subst (asm) run_loop.simps) (auto simp: False split: sum.splits)
    show ?thesis
    proof (rule run_one_Inr[OF one False], goal_cases)
      case (1 i b s')
      note i = 1(1) and b = 1(2) and lt = 1(3) and pr = 1(4) and ws' = 1(5) and reg1 = 1(6) and u = 1(7)
      define p where "p = ws ! i"
      define b1 where "b1 = b\<lparr>states := (states b)[istate b := s'], istate := Suc (istate b)\<rparr>"
      have reg1_def: "reg1 = assign reg p b1" using reg1 by (simp add: p_def b1_def)
      have u_def: "u = (p, istate b, iterations (states b ! istate b))" using u by (simp add: p_def)
      have bp: "deref reg p = Some b" using b by (simp add: p_def)
      have pin: "p \<in> set ws" using i by (simp add: p_def)
      have d: "deref reg1 q = (if q = p then Some b1 else deref reg q)" for q
        unfolding reg1_def by (rule deref_assign[OF bp])
      have sub: "set ws' = (if Suc (istate b) = length (states b) then set ws - {p} else set ws)"
        using set_erase[OF less.prems(1) i] by (simp add: ws' p_def)
      have dis: "distinct ws'"
        using less.prems(1) by (simp add: ws' distinct_erase)
      have "remaining reg1 < remaining reg"
        using one by (rule run_one_remaining)
      from less.hyps[OF this dis run]
      obtain ex where
        tr': "tr' = (tr @ [u]) @ ex" and
        rel: "related (set ws') ran reg1 reg'" and
        ms: "mset ex = (\<Sum>q\<in>#mset ws'. mset (pending reg1 q))"
        by blast
      have 1: "tr' = tr @ (u # ex)" using tr' by simp
      have 2: "related (set ws) ran reg reg'"
        unfolding related_def
      proof (intro conjI allI impI)
        show "map fst reg' = map fst reg"
          using rel by (simp add: related_def reg1_def map_fst_assign)
      next
        fix q assume "deref reg q = None"
        then have "deref reg1 q = None" using bp by (auto simp: d)
        then show "deref reg' q = None" using rel unfolding related_def by blast
      next
        fix q bq assume q: "deref reg q = Some bq"
        show "\<exists>b'. deref reg' q = Some b' \<and> (q \<in> set ws \<longrightarrow> ran bq b') \<and> (q \<notin> set ws \<longrightarrow> b' = bq)"
        proof (cases "q = p")
          case True
          then have bq: "bq = b" using q bp by simp
          have "deref reg1 p = Some b1" by (simp add: d)
          with rel obtain b' where b': "deref reg' p = Some b'"
            "p \<in> set ws' \<longrightarrow> ran b1 b'" "p \<notin> set ws' \<longrightarrow> b' = b1"
            unfolding related_def by blast
          have "ran b b'"
          proof (cases "Suc (istate b) = length (states b)")
            case True
            then have "b' = b1" using b'(3) sub by simp
            then show ?thesis using ran_last[OF True pr] by (simp add: b1_def)
          next
            case False
            then have "ran b1 b'" using b'(2) sub pin by simp
            then show ?thesis using ran_step[OF lt pr] by (simp add: b1_def)
          qed
          then show ?thesis using b'(1) True bq pin by simp
        next
          case False
          then have "deref reg1 q = Some bq" using q by (simp add: d)
          moreover have "q \<in> set ws' \<longleftrightarrow> q \<in> set ws" using False sub by auto
          ultimately show ?thesis using rel unfolding related_def by fastforce
        qed
      qed
      have 3: "mset (u # ex) = (\<Sum>q\<in>#mset ws. mset (pending reg q))"
      proof -
        define R where "R = mset ws - {#p#}"
        have ws: "mset ws = add_mset p R" using pin by (simp add: R_def)
        have pR: "p \<notin># R"
        proof -
          have "count (mset ws) p = 1"
            using less.prems(1) pin distinct_count_atmost_1[of ws] by metis
          then have "count R p = 0" by (simp add: R_def)
          then show ?thesis by (simp add: not_in_iff)
        qed
        have same: "(\<Sum>q\<in>#R. mset (pending reg1 q)) = (\<Sum>q\<in>#R. mset (pending reg q))"
        proof -
          have "image_mset (\<lambda>q. mset (pending reg1 q)) R = image_mset (\<lambda>q. mset (pending reg q)) R"
          proof (rule image_mset_cong)
            fix q assume "q \<in># R"
            then have "q \<noteq> p" using pR by auto
            then show "mset (pending reg1 q) = mset (pending reg q)"
              unfolding reg1_def by (simp add: pending_other[OF bp])
          qed
          then show ?thesis by simp
        qed
        have pp: "pending reg p = u # pending reg1 p"
          unfolding u_def reg1_def b1_def by (rule pending_step[OF bp lt])
        have "(\<Sum>q\<in>#mset ws'. mset (pending reg1 q)) = mset (pending reg1 p) + (\<Sum>q\<in>#R. mset (pending reg1 q))"
        proof (cases "Suc (istate b) = length (states b)")
          case True
          then have "mset ws' = R" using mset_erase[OF i] by (simp add: ws' R_def p_def)
          moreover have "pending reg1 p = []"
            using True by (simp add: pending_def d b1_def)
          ultimately show ?thesis by simp
        next
          case False
          then have "mset ws' = add_mset p R" using ws by (simp add: ws')
          then show ?thesis by simp
        qed
        then show ?thesis using ms same pp ws by simp
      qed
      from 1 2 3 show ?thesis by blast
    qed
  qed
qed

section \<open>Baselines\<close>

lemma foldl_found: "foldl (\<lambda>found rb. if baseline rb then True else found) acc bs \<longleftrightarrow> acc \<or> (\<exists>b\<in>set bs. baseline b)"
  by (induction bs arbitrary: acc) auto

lemma found_baseline_iff: "found_baseline bs \<longleftrightarrow> (\<exists>b\<in>set bs. baseline b)"
  by (simp add: found_baseline_def foldl_found)

lemma length_identify_baseline: "length (identify_baseline bs) = length bs"
  by (simp add: identify_baseline_def split: list.splits)

lemma nth_identify_baseline:
  "j < length bs \<Longrightarrow>
   identify_baseline bs ! j = (bs ! j)\<lparr>baseline := baseline (bs ! j) \<or> (j = 0 \<and> \<not> found_baseline bs)\<rparr>"
proof (cases bs)
  case Nil
  then show "j < length bs \<Longrightarrow> ?thesis" by simp
next
  case (Cons front rest)
  assume "j < length bs"
  show ?thesis
  proof (cases "found_baseline bs")
    case True
    then show ?thesis by (simp add: identify_baseline_def Cons)
  next
    case False
    then have "\<not> baseline (bs ! j)"
      using \<open>j < length bs\<close> by (auto simp: found_baseline_iff)
    then show ?thesis using False Cons by (cases j) (simp_all add: identify_baseline_def)
  qed
qed

lemma baselines_identified:
  "map baseline (identify_baseline bs) =
     (if bs \<noteq> [] \<and> \<not> (\<exists>b\<in>set bs. baseline b) then True # replicate (length bs - 1) False
      else map baseline bs)"
proof (cases bs)
  case Nil
  then show ?thesis by (simp add: identify_baseline_def)
next
  case (Cons front rest)
  show ?thesis
  proof (cases "\<exists>b\<in>set bs. baseline b")
    case True
    then show ?thesis by (simp add: identify_baseline_def Cons found_baseline_iff)
  next
    case False
    then have "map baseline rest = replicate (length rest) False"
      by (auto simp: Cons map_replicate_const[symmetric] intro!: map_cong)
    with False show ?thesis by (simp add: identify_baseline_def Cons found_baseline_iff)
  qed
qed

lemma deref_identify_baselines:
  "deref (identify_baselines reg) (i, j) =
     map_option (\<lambda>b. b\<lparr>baseline := baseline b \<or> (j = 0 \<and> \<not> found_baseline (snd (reg ! i)))\<rparr>)
       (deref reg (i, j))"
  by (simp add: deref_def identify_baselines_def length_identify_baseline nth_identify_baseline)

lemma map_fst_identify_baselines: "map fst (identify_baselines reg) = map fst reg"
  by (simp add: identify_baselines_def comp_def)

section \<open>The report averages the states of each workload size\<close>

lemma traverse_Inr: "traverse f xs = Inr ys \<longleftrightarrow> list_all2 (\<lambda>x y. f x = Inr y) xs ys"
proof (induction xs arbitrary: ys)
  case Nil
  show ?case by auto
next
  case (Cons x xs)
  show ?case
  proof (cases "f x")
    case (Inl err)
    then show ?thesis by (auto simp: list_all2_Cons1)
  next
    case fx: (Inr y)
    show ?thesis
    proof (cases "traverse f xs")
      case (Inl err)
      then have "\<not> list_all2 (\<lambda>x y. f x = Inr y) xs zs" for zs
        using Cons[of zs] by simp
      then show ?thesis using Inl fx by (auto simp: list_all2_Cons1)
    next
      case (Inr zs)
      then have "list_all2 (\<lambda>x y. f x = Inr y) xs zs' \<longleftrightarrow> zs' = zs" for zs'
        using Cons[of zs'] by auto
      then show ?thesis using Inr fx by (auto simp: list_all2_Cons1)
    qed
  qed
qed

lemma accumulate_all:
  "foldl (\<lambda>ds st. accumulate st ds) ds sts =
     map (\<lambda>d. d\<lparr>total_time_ns := total_time_ns d + sum_list (map duration_ns (samples_of sts (dimension d))),
                ps_samples := ps_samples d + int (length (samples_of sts (dimension d)))\<rparr>) ds"
proof (induction sts arbitrary: ds)
  case Nil
  show ?case by (simp add: samples_of_def)
next
  case (Cons st sts)
  show ?case
    unfolding foldl_Cons Cons
    by (auto simp: accumulate_def samples_of_def)
qed

lemma average_out_accumulated:
  "average_out (\<lparr>dimension = w, ps_samples = 0, total_time_ns = 0\<rparr>
      \<lparr>total_time_ns := 0 + sum_list (map duration_ns (samples_of sts w)),
       ps_samples := 0 + int (length (samples_of sts w))\<rparr>) =
     (if samples_of sts w = [] then Inl DivisionByZero else Inr (average sts w))"
  by (simp add: average_out_def cdiv_def average_def)

lemma build_benchmark_eq:
  "build_benchmark r b =
     (if \<forall>w\<in>set (effective_iterations r b). samples_of (states b) w \<noteq> []
      then Inr \<lparr>rb_name = name b, is_baseline = baseline b,
                data = map (average (states b)) (effective_iterations r b)\<rparr>
      else Inl DivisionByZero)"
proof -
  let ?W = "effective_iterations r b"
  let ?acc = "\<lambda>w. \<lparr>dimension = w, ps_samples = 0, total_time_ns = 0\<rparr>
      \<lparr>total_time_ns := 0 + sum_list (map duration_ns (samples_of (states b) w)),
       ps_samples := 0 + int (length (samples_of (states b) w))\<rparr>"
  have d1: "foldl (\<lambda>ds st. accumulate st ds)
              (map (\<lambda>d. \<lparr>dimension = d, ps_samples = 0, total_time_ns = 0\<rparr>) ?W) (states b) =
            map ?acc ?W"
    unfolding accumulate_all by (simp add: comp_def)
  have t: "traverse average_out (map ?acc W) =
        (if \<forall>w\<in>set W. samples_of (states b) w \<noteq> [] then Inr (map (average (states b)) W)
         else Inl DivisionByZero)" for W
  proof (induction W)
    case Nil
    show ?case by simp
  next
    case (Cons w W)
    show ?case
      unfolding list.map traverse.simps average_out_accumulated Cons by simp
  qed
  show ?thesis
    unfolding build_benchmark_def Let_def d1 t by simp
qed

section \<open>A whole run\<close>

lemma all_benchmarks_identify: "all_benchmarks (identify_baselines reg) = all_benchmarks reg"
proof -
  have len: "length (identify_baselines reg) = length reg"
    by (simp add: identify_baselines_def)
  have "map (\<lambda>i. map (\<lambda>j. (i, j)) [0..<length (snd (identify_baselines reg ! i))]) [0..<length reg] =
        map (\<lambda>i. map (\<lambda>j. (i, j)) [0..<length (snd (reg ! i))]) [0..<length reg]"
    by (rule map_cong) (simp_all add: identify_baselines_def length_identify_baseline)
  then show ?thesis unfolding all_benchmarks_def len by (rule arg_cong)
qed

lemma related_None:
  assumes "related ps R reg reg'"
  shows "deref reg' p = None \<longleftrightarrow> deref reg p = None"
proof (cases "deref reg p")
  case None
  then show ?thesis using assms unfolding related_def by blast
next
  case (Some b)
  then obtain b' where "deref reg' p = Some b'" using assms unfolding related_def by blast
  then show ?thesis using Some by simp
qed

text \<open>The phases of a run that returns: the registry \<open>reg2\<close> after the initialisation loop and
  the registry the scheduling loop leaves.\<close>

lemma run_seeded_phases:
  assumes "run_seeded r g reg now = Inr res"
  obtains g1 reg2 where
    "initialize_all r (all_benchmarks reg) g (identify_baselines reg) = Inr (g1, reg2)"
    "related (set (all_benchmarks reg)) (initialized r) (identify_baselines reg) reg2"
    "run_loop g1 (all_benchmarks reg) reg2 now [] = Inr (registered_suites res, clock res, executed res)"
    "related (set (all_benchmarks reg)) ran reg2 (registered_suites res)"
    "mset (executed res) = (\<Sum>p\<in>#mset (all_benchmarks reg). mset (pending reg2 p))"
    "generate_report r (registered_suites res) = Inr (rpt res)"
proof -
  let ?reg1 = "identify_baselines reg"
  let ?ps = "all_benchmarks reg"
  have valid: "\<forall>p\<in>set ?ps. deref ?reg1 p \<noteq> None"
    using in_all_benchmarks[of _ ?reg1] by (simp add: all_benchmarks_identify)
  from initialize_all_related[OF distinct_all_benchmarks valid, of r g]
  obtain g1 reg2 where
    init: "initialize_all r ?ps g ?reg1 = Inr (g1, reg2)" and
    rel1: "related (set ?ps) (initialized r) ?reg1 reg2"
    by blast
  from assms init obtain reg3 now' ex where
    loop: "run_loop g1 ?ps reg2 now [] = Inr (reg3, now', ex)"
    by (auto simp: run_seeded_def Let_def all_benchmarks_identify split: sum.splits)
  from assms init loop obtain rp where
    rep: "generate_report r reg3 = Inr rp"
    by (auto simp: run_seeded_def Let_def all_benchmarks_identify split: sum.splits)
  from assms init loop rep have res: "res = \<lparr>rpt = rp, registered_suites = reg3, clock = now', executed = ex\<rparr>"
    by (simp add: run_seeded_def Let_def all_benchmarks_identify)
  from run_loop_related[OF distinct_all_benchmarks loop]
  have rel2: "related (set ?ps) ran reg2 reg3"
    and ms: "mset ex = (\<Sum>p\<in>#mset ?ps. mset (pending reg2 p))"
    by auto
  show thesis
    by (rule that[OF init rel1]) (simp_all add: res loop rel2 ms rep)
qed

lemma related_in:
  assumes "related ps R reg reg'" and "deref reg p = Some b" and "p \<in> ps"
  obtains b' where "deref reg' p = Some b'" "R b b'"
  using assms unfolding related_def by blast

lemma filter_pending_sum:
  assumes "distinct ps"
  shows "filter_mset (\<lambda>u. fst u = p) (\<Sum>q\<in>#mset ps. mset (pending reg q)) =
         (if p \<in> set ps then mset (pending reg p) else {#})"
  using assms
proof (induction ps)
  case Nil
  show ?case by simp
next
  case (Cons q ps)
  have own: "filter_mset (\<lambda>u. fst u = p) (mset (pending reg q)) = (if q = p then mset (pending reg q) else {#})"
    by (auto simp: pending_def filter_mset_eq_conv split: option.splits
        intro!: filter_mset_cong multiset_eqI)
  show ?case using Cons by (auto simp: own)
qed

lemma in_pending_sum:
  assumes "u \<in># (\<Sum>q\<in>#mset ps. mset (pending reg q))"
  shows "fst u \<in> set ps"
  using assms
proof (induction ps)
  case Nil
  then show ?case by simp
next
  case (Cons q ps)
  then show ?case by (auto simp: pending_def split: option.splits)
qed

lemma generated_iterations:
  "map iterations (generated r b) =
     concat (map (replicate (nat (effective_samples r b))) (effective_iterations r b))"
  by (simp add: generated_def map_concat comp_def new_state_def map_replicate_const)

lemma ran_iterations:
  assumes "ran b0 b'" and "\<forall>s\<in>set (states b0). honours (proc b0) s"
  shows "map iterations (states b') = map iterations (states b0)"
proof (rule nth_equalityI)
  show "length (map iterations (states b')) = length (map iterations (states b0))"
    using assms(1) by (simp add: ran_def)
next
  fix k assume "k < length (map iterations (states b'))"
  then have k: "k < length (states b0)" using assms(1) by (simp add: ran_def)
  show "map iterations (states b') ! k = map iterations (states b0) ! k"
  proof (cases "k < istate b0")
    case True
    then show ?thesis using assms(1) k by (simp add: ran_def)
  next
    case False
    then obtain t t' where t: "proc b0 (states b0 ! k) t = Inr (states b' ! k, t')"
      using assms(1) k unfolding ran_def by (meson not_less)
    have "honours (proc b0) (states b0 ! k)" using assms(2) k by simp
    then obtain s' now' where "proc b0 (states b0 ! k) t = Inr (s', now')" "iterations s' = iterations (states b0 ! k)"
      unfolding honours_def by blast
    then show ?thesis using t k assms(1) by (simp add: ran_def)
  qed
qed

lemma generate_report_nth:
  assumes "generate_report r reg = Inr rp" and "deref reg (i, j) = Some b"
  shows "build_benchmark r b = Inr (benchmarks (suites rp ! i) ! j)"
    and "rs_name (suites rp ! i) = fst (reg ! i)"
proof -
  from assms(2) have i: "i < length reg" and j: "j < length (snd (reg ! i))"
    and b: "b = snd (reg ! i) ! j"
    by (simp_all add: deref_Some_iff)
  from assms(1) have "traverse (build_suite r) reg = Inr (suites rp)"
    by (auto simp: generate_report_def split: sum.splits)
  then have "list_all2 (\<lambda>x y. build_suite r x = Inr y) reg (suites rp)"
    by (simp add: traverse_Inr)
  then have s: "build_suite r (reg ! i) = Inr (suites rp ! i)"
    using i by (simp add: list_all2_conv_all_nth)
  then obtain bs where bs: "\<lparr>rs_name = fst (reg ! i), benchmarks = bs\<rparr> = suites rp ! i"
    "traverse (build_benchmark r) (snd (reg ! i)) = Inr bs"
    by (cases "traverse (build_benchmark r) (snd (reg ! i))") (auto simp: build_suite_def)
  show "rs_name (suites rp ! i) = fst (reg ! i)"
    by (simp add: bs(1)[symmetric])
  have "traverse (build_benchmark r) (snd (reg ! i)) = Inr (benchmarks (suites rp ! i))"
    by (simp add: bs(1)[symmetric] bs(2))
  then have "list_all2 (\<lambda>x y. build_benchmark r x = Inr y) (snd (reg ! i)) (benchmarks (suites rp ! i))"
    by (simp add: traverse_Inr)
  then show "build_benchmark r b = Inr (benchmarks (suites rp ! i) ! j)"
    using j b by (simp add: list_all2_conv_all_nth)
qed

lemma initialized_istate:
  assumes "initialized r b b0"
  shows "istate b0 = 0"
proof -
  from assms have eq: "b0 = b\<lparr>samples := effective_samples r b, states := states b0, istate := 0\<rparr>"
    by (simp add: initialized_def)
  show ?thesis by (subst eq) simp
qed

lemma run_seeded_pointwise:
  assumes run: "run_seeded r g reg now = Inr res" and b: "deref reg (i, j) = Some b"
  obtains b0 b' where
    "initialized r (b\<lparr>baseline := baseline b \<or> (j = 0 \<and> \<not> found_baseline (snd (reg ! i)))\<rparr>) b0"
    "ran b0 b'"
    "deref (registered_suites res) (i, j) = Some b'"
    "mset (filter (\<lambda>u. fst u = (i, j)) (executed res)) =
       mset (map (\<lambda>k. ((i, j), k, iterations (states b0 ! k))) [0..<length (states b0)])"
    "build_benchmark r b' = Inr (benchmarks (suites (rpt res) ! i) ! j)"
proof (rule run_seeded_phases[OF run], goal_cases)
  case (1 g1 reg2)
  note rel1 = 1(3) and rel2 = 1(5) and ms = 1(6) and rep = 1(7)
  let ?b1 = "b\<lparr>baseline := baseline b \<or> (j = 0 \<and> \<not> found_baseline (snd (reg ! i)))\<rparr>"
  have pin: "(i, j) \<in> set (all_benchmarks reg)" using b by (simp add: in_all_benchmarks)
  have b1: "deref (identify_baselines reg) (i, j) = Some ?b1"
    by (simp add: deref_identify_baselines b)
  from related_in[OF rel1 b1 pin] obtain b0 where
    b0: "deref reg2 (i, j) = Some b0" "initialized r ?b1 b0" by blast
  from related_in[OF rel2 b0(1) pin] obtain b' where
    b': "deref (registered_suites res) (i, j) = Some b'" "ran b0 b'" by blast
  have i0: "istate b0 = 0" by (rule initialized_istate[OF b0(2)])
  have "mset (filter (\<lambda>u. fst u = (i, j)) (executed res)) =
        filter_mset (\<lambda>u. fst u = (i, j)) (mset (executed res))"
    by simp
  also have "\<dots> = mset (pending reg2 (i, j))"
    unfolding ms using filter_pending_sum[OF distinct_all_benchmarks, of "(i, j)" reg2 reg] pin
    by simp
  also have "\<dots> = mset (map (\<lambda>k. ((i, j), k, iterations (states b0 ! k))) [0..<length (states b0)])"
    by (simp add: pending_def b0(1) i0)
  finally have units: "mset (filter (\<lambda>u. fst u = (i, j)) (executed res)) =
       mset (map (\<lambda>k. ((i, j), k, iterations (states b0 ! k))) [0..<length (states b0)])" .
  show ?case
    by (rule 1(1)[OF b0(2) b'(2) b'(1) units generate_report_nth(1)[OF rep b'(1)]])
qed

lemma initialized_fields:
  assumes "initialized r b b0"
  shows "name b0 = name b" "proc b0 = proc b" "baseline b0 = baseline b"
    "state_iterations b0 = state_iterations b" "samples b0 = effective_samples r b"
    "istate b0 = 0" "mset (states b0) = mset (states b) + mset (generated r b)"
proof -
  from assms have eq: "b0 = b\<lparr>samples := effective_samples r b, states := states b0, istate := 0\<rparr>"
    and ms: "mset (states b0) = mset (states b) + mset (generated r b)"
    by (simp_all add: initialized_def)
  show "name b0 = name b" by (subst eq) simp
  show "proc b0 = proc b" by (subst eq) simp
  show "baseline b0 = baseline b" by (subst eq) simp
  show "state_iterations b0 = state_iterations b" by (subst eq) simp
  show "samples b0 = effective_samples r b" by (subst eq) simp
  show "istate b0 = 0" by (subst eq) simp
  show "mset (states b0) = mset (states b) + mset (generated r b)" by (rule ms)
qed

lemma ran_fields:
  assumes "ran b0 b'"
  shows "name b' = name b0" "proc b' = proc b0" "baseline b' = baseline b0"
    "state_iterations b' = state_iterations b0" "samples b' = samples b0"
    "istate b' = length (states b0)" "length (states b') = length (states b0)"
proof -
  from assms have eq: "b' = b0\<lparr>states := states b', istate := length (states b0)\<rparr>"
    and len: "length (states b') = length (states b0)"
    by (simp_all add: ran_def)
  show "name b' = name b0" by (subst eq) simp
  show "proc b' = proc b0" by (subst eq) simp
  show "baseline b' = baseline b0" by (subst eq) simp
  show "state_iterations b' = state_iterations b0" by (subst eq) simp
  show "samples b' = samples b0" by (subst eq) simp
  show "istate b' = length (states b0)" by (subst eq) simp
  show "length (states b') = length (states b0)" by (rule len)
qed

lemma set_generated:
  "0 < effective_samples r b \<Longrightarrow>
   iterations ` set (generated r b) = set (effective_iterations r b)"
proof -
  assume "0 < effective_samples r b"
  then have "set (replicate (nat (effective_samples r b)) w) = {w}" for w :: int
    by simp
  then have "set (map iterations (generated r b)) = set (effective_iterations r b)"
    unfolding generated_iterations by simp
  then show ?thesis by simp
qed

text \<open>What initialisation makes of a runnable benchmark can be picked by the loop.\<close>

lemma initialized_states:
  assumes "initialized r b b0"
  shows "iterations ` set (states b0) = iterations ` set (states b) \<union> iterations ` set (generated r b)"
proof -
  have "set (states b0) = set (states b) \<union> set (generated r b)"
    using initialized_fields(7)[OF assms] by (metis set_mset_mset set_mset_union)
  then show ?thesis by auto
qed

lemma runnable_initialized:
  assumes run: "runnable r b" and init: "initialized r b b0"
  shows "ready b0" and "\<forall>s\<in>set (states b0). honours (proc b0) s"
proof -
  from run have pos: "0 < effective_samples r b" and ne: "effective_iterations r b \<noteq> []"
    unfolding runnable_def by blast+
  from run have hon: "honours (proc b) s"
    if "iterations s \<in> set (effective_iterations r b) \<union> iterations ` set (states b)" for s
    using that unfolding runnable_def by blast
  have its: "iterations ` set (states b0) = iterations ` set (states b) \<union> set (effective_iterations r b)"
    using initialized_states[OF init] set_generated[OF pos] by simp
  show h: "\<forall>s\<in>set (states b0). honours (proc b0) s"
  proof
    fix s assume "s \<in> set (states b0)"
    then have "iterations s \<in> iterations ` set (states b) \<union> set (effective_iterations r b)"
      using its by blast
    then show "honours (proc b0) s"
      using hon[of s] by (auto simp: initialized_fields(2)[OF init])
  qed
  have "set (effective_iterations r b) \<noteq> {}" using ne by simp
  then have "iterations ` set (states b0) \<noteq> {}" using its by simp
  then have "set (states b0) \<noteq> {}" by blast
  then have "0 < length (states b0)" by simp
  then show "ready b0"
    using h unfolding ready_def honours_def initialized_fields(6)[OF init]
    by (metis nth_mem)
qed

lemma runnable_baseline [simp]: "runnable r (b\<lparr>baseline := x\<rparr>) = runnable r b"
  by (simp add: runnable_def effective_samples_def effective_iterations_def)

lemma generated_baseline [simp]: "generated r (b\<lparr>baseline := x\<rparr>) = generated r b"
  by (simp add: generated_def effective_samples_def effective_iterations_def)

lemma traverse_returns:
  assumes "\<And>x. x \<in> set xs \<Longrightarrow> \<exists>y. f x = Inr y"
  shows "\<exists>ys. traverse f xs = Inr ys"
  using assms
proof (induction xs)
  case Nil
  show ?case by simp
next
  case (Cons x xs)
  from Cons.prems obtain y where "f x = Inr y" by auto
  moreover from Cons obtain ys where "traverse f xs = Inr ys" by auto
  ultimately show ?case by simp
qed

text \<open>The outcome of a run for one runnable benchmark \<open>b\<close>: \<open>b0\<close> is the benchmark after
  the initialisation, \<open>b'\<close> after the scheduling loop.\<close>

lemma run_outcome:
  assumes run: "runnable r b" and init: "initialized r (b\<lparr>baseline := x\<rparr>) b0" and ran: "ran b0 b'"
  shows "map iterations (states b') = map iterations (states b0)"
    and "mset (map iterations (states b')) =
         mset (map iterations (states b)) +
         mset (concat (map (replicate (nat (effective_samples r b))) (effective_iterations r b)))"
    and "effective_iterations r b' = effective_iterations r b"
    and "effective_samples r b' = effective_samples r b"
    and "runnable r b'"
    and "build_benchmark r b' =
         Inr \<lparr>rb_name = name b, is_baseline = x,
              data = map (average (states b')) (effective_iterations r b)\<rparr>"
proof -
  let ?b1 = "b\<lparr>baseline := x\<rparr>"
  have run1: "runnable r ?b1" using run by simp
  note f0 = initialized_fields[OF init] and f' = ran_fields[OF ran]
  have es: "effective_samples r ?b1 = effective_samples r b"
    and ei: "effective_iterations r ?b1 = effective_iterations r b"
    by (simp_all add: effective_samples_def effective_iterations_def)
  have pos: "0 < effective_samples r b" using run unfolding runnable_def by blast
  show its: "map iterations (states b') = map iterations (states b0)"
    using ran runnable_initialized(2)[OF run1 init] by (rule ran_iterations)
  have "mset (map iterations (states b0)) =
        mset (map iterations (states b)) + mset (map iterations (generated r b))"
  proof -
    have "mset (map iterations (states b0)) = image_mset iterations (mset (states b0))" by simp
    also have "\<dots> = image_mset iterations (mset (states ?b1) + mset (generated r ?b1))"
      by (simp only: f0(7))
    finally show ?thesis by simp
  qed
  then show ms: "mset (map iterations (states b')) =
         mset (map iterations (states b)) +
         mset (concat (map (replicate (nat (effective_samples r b))) (effective_iterations r b)))"
    by (simp add: its generated_iterations)
  show W: "effective_iterations r b' = effective_iterations r b"
    by (simp add: effective_iterations_def f'(4) f0(4))
  show S: "effective_samples r b' = effective_samples r b"
    using pos by (simp add: effective_samples_def f'(5) f0(5) es)
  have set_its: "iterations ` set (states b') =
                 iterations ` set (states b) \<union> set (effective_iterations r b)"
  proof -
    have "set (map iterations (states b')) = set (map iterations (states b0))" by (simp only: its)
    then have "iterations ` set (states b') = iterations ` set (states b0)" by simp
    also have "\<dots> = iterations ` set (states ?b1) \<union> iterations ` set (generated r ?b1)"
      by (rule initialized_states[OF init])
    also have "\<dots> = iterations ` set (states b) \<union> set (effective_iterations r b)"
      using set_generated[OF pos] by simp
    finally show ?thesis .
  qed
  show "runnable r b'"
    using run unfolding runnable_def W S set_its f'(2) f0(2) by auto
  have "\<forall>w\<in>set (effective_iterations r b). samples_of (states b') w \<noteq> []"
  proof
    fix w assume "w \<in> set (effective_iterations r b)"
    then have "w \<in> iterations ` set (states b')" using set_its by simp
    then show "samples_of (states b') w \<noteq> []"
      by (auto simp: samples_of_def filter_empty_conv)
  qed
  then show "build_benchmark r b' =
         Inr \<lparr>rb_name = name b, is_baseline = x,
              data = map (average (states b')) (effective_iterations r b)\<rparr>"
    unfolding build_benchmark_eq W by (simp add: f'(1,3) f0(1,3))
qed

lemma run_seeded_returns:
  assumes all: "\<forall>p b. deref reg p = Some b \<longrightarrow> runnable r b"
  shows "\<exists>res. run_seeded r g reg now = Inr res"
proof -
  let ?reg1 = "identify_baselines reg"
  let ?ps = "all_benchmarks reg"
  have valid: "\<forall>p\<in>set ?ps. deref ?reg1 p \<noteq> None"
    using in_all_benchmarks[of _ ?reg1] by (simp add: all_benchmarks_identify)
  from initialize_all_related[OF distinct_all_benchmarks valid, of r g]
  obtain g1 reg2 where
    init: "initialize_all r ?ps g ?reg1 = Inr (g1, reg2)" and
    rel1: "related (set ?ps) (initialized r) ?reg1 reg2"
    by blast
  have origin: "\<exists>b x b0. deref reg p = Some b \<and> deref reg2 p = Some b0 \<and>
                  initialized r (b\<lparr>baseline := x\<rparr>) b0" if "p \<in> set ?ps" for p
  proof -
    obtain i j where p: "p = (i, j)" by (cases p)
    from that obtain b where b: "deref reg (i, j) = Some b"
      by (auto simp: in_all_benchmarks p)
    have "deref ?reg1 (i, j) = Some (b\<lparr>baseline := baseline b \<or> (j = 0 \<and> \<not> found_baseline (snd (reg ! i)))\<rparr>)"
      by (simp add: deref_identify_baselines b)
    from related_in[OF rel1 this] that show ?thesis
      unfolding p using b by blast
  qed
  have rdy: "\<forall>p\<in>set ?ps. \<exists>b. deref reg2 p = Some b \<and> ready b"
  proof
    fix p assume "p \<in> set ?ps"
    from origin[OF this] obtain b x b0 where
      "deref reg p = Some b" "deref reg2 p = Some b0" "initialized r (b\<lparr>baseline := x\<rparr>) b0"
      by blast
    moreover from this all have "runnable r b" by blast
    then have "runnable r (b\<lparr>baseline := x\<rparr>)" by simp
    ultimately show "\<exists>b. deref reg2 p = Some b \<and> ready b"
      using runnable_initialized(1) by blast
  qed
  from run_loop_returns[OF distinct_all_benchmarks rdy, of g1 now "[]"]
  obtain reg3 now' ex where loop: "run_loop g1 ?ps reg2 now [] = Inr (reg3, now', ex)"
    by (metis prod_cases3)
  from run_loop_related[OF distinct_all_benchmarks loop]
  have rel2: "related (set ?ps) ran reg2 reg3" by blast
  have bench: "\<exists>y. build_benchmark r b' = Inr y" if "deref reg3 (i, j) = Some b'" for i j b'
  proof -
    have "deref reg2 (i, j) \<noteq> None" using that related_None[OF rel2, of "(i, j)"] by simp
    then have "deref ?reg1 (i, j) \<noteq> None"
      using related_None[OF rel1, of "(i, j)"] by simp
    then have "(i, j) \<in> set (all_benchmarks ?reg1)"
      by (simp only: in_all_benchmarks not_False_eq_True)
    then have pin: "(i, j) \<in> set ?ps"
      by (simp only: all_benchmarks_identify)
    from origin[OF pin] obtain b x b0 where
      b: "deref reg (i, j) = Some b" "deref reg2 (i, j) = Some b0" "initialized r (b\<lparr>baseline := x\<rparr>) b0"
      by blast
    from related_in[OF rel2 b(2) pin] that have "ran b0 b'" by auto
    moreover have "runnable r b" using all b(1) by blast
    ultimately show ?thesis using run_outcome(6)[OF _ b(3)] by blast
  qed
  have suite: "\<exists>y. build_suite r suite = Inr y" if "suite \<in> set reg3" for suite
  proof -
    from that obtain i where i: "i < length reg3" "suite = reg3 ! i"
      by (auto simp: in_set_conv_nth)
    have "\<exists>y. build_benchmark r b' = Inr y" if "b' \<in> set (snd suite)" for b'
    proof -
      from that obtain j where "j < length (snd (reg3 ! i))" "b' = snd (reg3 ! i) ! j"
        using i by (auto simp: in_set_conv_nth)
      then have "deref reg3 (i, j) = Some b'" using i by (simp add: deref_Some_iff)
      then show ?thesis by (rule bench)
    qed
    from traverse_returns[of "snd suite" "build_benchmark r", OF this]
    show ?thesis by (auto simp: build_suite_def)
  qed
  from traverse_returns[of reg3 "build_suite r", OF this]
  obtain rp where "generate_report r reg3 = Inr rp"
    by (auto simp: generate_report_def)
  then show ?thesis
    by (simp add: run_seeded_def Let_def all_benchmarks_identify init loop)
qed

section \<open>Every unit is executed exactly once\<close>

lemma units_offsets:
  assumes "mset (filter (\<lambda>u. fst u = p) ex) =
           mset (map (\<lambda>k. (p, k, iterations (sts ! k))) [0..<length sts])"
  shows "mset (map (\<lambda>u. fst (snd u)) (filter (\<lambda>u. fst u = p) ex)) = mset [0..<length sts]"
proof -
  have "mset (map (\<lambda>u. fst (snd u)) (filter (\<lambda>u. fst u = p) ex)) =
        image_mset (\<lambda>u. fst (snd u)) (mset (filter (\<lambda>u. fst u = p) ex))"
    by simp
  also have "\<dots> = image_mset (\<lambda>u. fst (snd u)) (mset (map (\<lambda>k. (p, k, iterations (sts ! k))) [0..<length sts]))"
    by (simp only: assms)
  also have "\<dots> = mset (map (\<lambda>u. fst (snd u)) (map (\<lambda>k. (p, k, iterations (sts ! k))) [0..<length sts]))"
    by (simp only: mset_map)
  also have "\<dots> = mset [0..<length sts]"
    by (simp only: map_map comp_def fst_conv snd_conv map_ident)
  finally show ?thesis .
qed

lemma units_count:
  assumes "mset (filter (\<lambda>u. fst u = p) ex) =
           mset (map (\<lambda>k. (p, k, iterations (sts ! k))) [0..<length sts])"
  shows "length (filter (\<lambda>u. fst u = p \<and> snd (snd u) = v) ex) = length (samples_of sts v)"
proof -
  have "filter (\<lambda>u. fst u = p \<and> snd (snd u) = v) ex =
        filter (\<lambda>u. snd (snd u) = v) (filter (\<lambda>u. fst u = p) ex)"
    by (simp add: conj_commute)
  then have "length (filter (\<lambda>u. fst u = p \<and> snd (snd u) = v) ex) =
        size (filter_mset (\<lambda>u. snd (snd u) = v) (mset (filter (\<lambda>u. fst u = p) ex)))"
    by (simp flip: mset_filter)
  also have "\<dots> = size (filter_mset (\<lambda>u. snd (snd u) = v)
                      (mset (map (\<lambda>k. (p, k, iterations (sts ! k))) [0..<length sts])))"
    by (simp only: assms)
  also have "\<dots> = length (filter (\<lambda>u. snd (snd u) = v)
                      (map (\<lambda>k. (p, k, iterations (sts ! k))) [0..<length sts]))"
    by (simp only: mset_filter[symmetric] size_mset)
  also have "\<dots> = length (filter (\<lambda>k. iterations (sts ! k) = v) [0..<length sts])"
    by (simp add: filter_map comp_def)
  also have "\<dots> = length (filter (\<lambda>s. iterations s = v) (map (\<lambda>k. sts ! k) [0..<length sts]))"
    by (simp add: filter_map comp_def)
  also have "\<dots> = length (samples_of sts v)"
    by (simp add: map_nth samples_of_def)
  finally show ?thesis .
qed

lemma count_replicated:
  "count (mset (concat (map (replicate n) W))) v = count_list W v * n"
  by (induction W) (simp_all add: count_mset)

lemma length_samples_of:
  "length (samples_of sts v) = count (mset (map iterations sts)) v"
  by (induction sts) (simp_all add: samples_of_def)

lemma length_replicated: "length (concat (map (replicate n) W)) = length W * n"
  by (induction W) simp_all

lemma run_result_of:
  assumes run: "runnable r b" and init: "initialized r (b\<lparr>baseline := x\<rparr>) b0" and ran: "ran b0 b'"
    and units: "mset (filter (\<lambda>u. fst u = p) ex) =
       mset (map (\<lambda>k. (p, k, iterations (states b0 ! k))) [0..<length (states b0)])"
  shows "length (states b') =
           length (states b) + length (effective_iterations r b) * nat (effective_samples r b)"
    and "mset (map (\<lambda>u. fst (snd u)) (filter (\<lambda>u. fst u = p) ex)) = mset [0..<length (states b')]"
    and "length (filter (\<lambda>u. fst u = p \<and> snd (snd u) = v) ex) =
           length (samples_of (states b) v) +
           count_list (effective_iterations r b) v * nat (effective_samples r b)"
    and "length (samples_of (states b') v) =
           length (samples_of (states b) v) +
           count_list (effective_iterations r b) v * nat (effective_samples r b)"
proof -
  note o = run_outcome[OF run init ran]
  have len: "length (states b') = length (states b0)" by (rule ran_fields(7)[OF ran])
  have "size (mset (map iterations (states b'))) =
        size (mset (map iterations (states b))) +
        size (mset (concat (map (replicate (nat (effective_samples r b))) (effective_iterations r b))))"
    by (simp only: o(2) size_union)
  then show "length (states b') =
           length (states b) + length (effective_iterations r b) * nat (effective_samples r b)"
    by (simp only: size_mset length_map length_replicated)
  show "mset (map (\<lambda>u. fst (snd u)) (filter (\<lambda>u. fst u = p) ex)) = mset [0..<length (states b')]"
    unfolding len by (rule units_offsets[OF units])
  have c: "count (mset (map iterations (states b0))) v =
        length (samples_of (states b) v) +
        count_list (effective_iterations r b) v * nat (effective_samples r b)"
    unfolding o(1)[symmetric] o(2) by (simp add: count_replicated length_samples_of)
  show "length (filter (\<lambda>u. fst u = p \<and> snd (snd u) = v) ex) =
           length (samples_of (states b) v) +
           count_list (effective_iterations r b) v * nat (effective_samples r b)"
    using c by (simp add: units_count[OF units] length_samples_of)
  show "length (samples_of (states b') v) =
           length (samples_of (states b) v) +
           count_list (effective_iterations r b) v * nat (effective_samples r b)"
    using c by (simp add: length_samples_of o(1))
qed

lemma executed_registered:
  assumes "run_seeded r g reg now = Inr res" and "u \<in> set (executed res)"
  shows "deref reg (fst u) \<noteq> None"
proof (rule run_seeded_phases[OF assms(1)], goal_cases)
  case (1 g1 reg2)
  have "u \<in># mset (executed res)" using assms(2) by simp
  then have "fst u \<in> set (all_benchmarks reg)"
    unfolding 1(5) by (rule in_pending_sum)
  then show ?case by (simp add: in_all_benchmarks)
qed

text \<open>
  Claim C1. When every registered benchmark is runnable, \<open>run_benchmarks\<close> returns. Only
  registered benchmarks are executed. For a benchmark \<open>b\<close> with effective workload sizes
  \<open>W\<close> and effective sample count \<open>s\<close>, the call adds \<open>|W| * s\<close> states to \<open>_states\<close>; the
  executed units of the benchmark are the offsets \<open>0 ..< size\<close> of \<open>_states\<close>, each once; and
  the number of its units executed with \<open>iterations = v\<close> is \<open>s\<close> for each occurrence of \<open>v\<close> in
  \<open>W\<close>, on top of the states with \<open>iterations = v\<close> that the benchmark held before the call
  (none on a first call, so exactly \<open>s\<close> when the values of \<open>W\<close> are distinct).
\<close>

theorem C1_every_unit_executed_once:
  assumes "\<forall>p b. deref reg p = Some b \<longrightarrow> runnable r b"
  shows "\<exists>res. run_benchmarks r w random_device random_seed reg now = Inr res \<and>
     (\<forall>u\<in>set (executed res). deref reg (fst u) \<noteq> None) \<and>
     (\<forall>p b. deref reg p = Some b \<longrightarrow>
        (\<exists>b'. deref (registered_suites res) p = Some b' \<and>
           length (states b') =
             length (states b) + length (effective_iterations r b) * nat (effective_samples r b) \<and>
           mset (map (\<lambda>u. fst (snd u)) (filter (\<lambda>u. fst u = p) (executed res))) =
             mset [0..<length (states b')] \<and>
           (\<forall>v. length (filter (\<lambda>u. fst u = p \<and> snd (snd u) = v) (executed res)) =
                length (samples_of (states b) v) +
                count_list (effective_iterations r b) v * nat (effective_samples r b))))"
proof -
  let ?g = "minstd_rand w (choose_seed random_device random_seed)"
  from run_seeded_returns[OF assms, of ?g now]
  obtain res where res: "run_seeded r ?g reg now = Inr res" by blast
  have 1: "run_benchmarks r w random_device random_seed reg now = Inr res"
    by (simp add: run_benchmarks_def res)
  have 2: "\<forall>u\<in>set (executed res). deref reg (fst u) \<noteq> None"
    using executed_registered[OF res] by blast
  have 3: "\<exists>b'. deref (registered_suites res) p = Some b' \<and>
           length (states b') =
             length (states b) + length (effective_iterations r b) * nat (effective_samples r b) \<and>
           mset (map (\<lambda>u. fst (snd u)) (filter (\<lambda>u. fst u = p) (executed res))) =
             mset [0..<length (states b')] \<and>
           (\<forall>v. length (filter (\<lambda>u. fst u = p \<and> snd (snd u) = v) (executed res)) =
                length (samples_of (states b) v) +
                count_list (effective_iterations r b) v * nat (effective_samples r b))"
    if b: "deref reg p = Some b" for p b
  proof -
    obtain i j where p: "p = (i, j)" by (cases p)
    have rb: "runnable r b" using assms b by blast
    show ?thesis
    proof (rule run_seeded_pointwise[OF res b[unfolded p]], goal_cases)
      case (1 b0 b')
      note rr = run_result_of[OF rb 1(1) 1(2) 1(4)]
      show ?case
        unfolding p using 1(3) rr(1) rr(2) rr(3) by blast
    qed
  qed
  from 1 2 3 show ?thesis by blast
qed

lemma runnable_bench_A: "runnable r bench_A"
  by (simp add: runnable_def bench_A_def benchmark_def effective_samples_def
      effective_iterations_def honours_sleeper)

lemma runnable_bench_B: "runnable r bench_B"
  by (auto simp: runnable_def bench_B_def benchmark_def effective_samples_def
      effective_iterations_def honours_sleeper)

lemma deref_scenario:
  "deref scenario p = Some b \<longleftrightarrow> p = (0, 0) \<and> b = bench_A \<or> p = (0, 1) \<and> b = bench_B"
  by (cases p) (auto simp: deref_def scenario_def less_Suc_eq nth_Cons' split: if_splits)

lemma runnable_scenario: "\<forall>p b. deref scenario p = Some b \<longrightarrow> runnable r b"
  by (auto simp: deref_scenario runnable_bench_A runnable_bench_B)

theorem C1_witness:
  "runnable new_runner bench_A \<and> runnable new_runner bench_B \<and>
   (\<exists>res. run_benchmarks new_runner 64 0 42 scenario 0 = Inr res \<and>
      (\<exists>b'. deref (registered_suites res) (0, 1) = Some b' \<and>
         length (states b') = 4 \<and>
         mset (map (\<lambda>u. fst (snd u)) (filter (\<lambda>u. fst u = (0, 1)) (executed res))) = mset [0..<4] \<and>
         length (filter (\<lambda>u. fst u = (0, 1) \<and> snd (snd u) = 20) (executed res)) = 2))"
proof -
  from C1_every_unit_executed_once[OF runnable_scenario, of new_runner 64 0 42 0]
  obtain res where res: "run_benchmarks new_runner 64 0 42 scenario 0 = Inr res"
    and all: "\<forall>p b. deref scenario p = Some b \<longrightarrow>
        (\<exists>b'. deref (registered_suites res) p = Some b' \<and>
           length (states b') =
             length (states b) + length (effective_iterations new_runner b) * nat (effective_samples new_runner b) \<and>
           mset (map (\<lambda>u. fst (snd u)) (filter (\<lambda>u. fst u = p) (executed res))) =
             mset [0..<length (states b')] \<and>
           (\<forall>v. length (filter (\<lambda>u. fst u = p \<and> snd (snd u) = v) (executed res)) =
                length (samples_of (states b) v) +
                count_list (effective_iterations new_runner b) v * nat (effective_samples new_runner b)))"
    by blast
  have "deref scenario (0, 1) = Some bench_B" by (simp add: deref_scenario)
  with all obtain b' where b': "deref (registered_suites res) (0, 1) = Some b'"
    "length (states b') =
       length (states bench_B) + length (effective_iterations new_runner bench_B) * nat (effective_samples new_runner bench_B)"
    "mset (map (\<lambda>u. fst (snd u)) (filter (\<lambda>u. fst u = (0, 1)) (executed res))) =
       mset [0..<length (states b')]"
    "\<forall>v. length (filter (\<lambda>u. fst u = (0, 1) \<and> snd (snd u) = v) (executed res)) =
                length (samples_of (states bench_B) v) +
                count_list (effective_iterations new_runner bench_B) v * nat (effective_samples new_runner bench_B)"
    by blast
  have B: "states bench_B = []" "effective_iterations new_runner bench_B = [10, 20]"
    "effective_samples new_runner bench_B = 2"
    by (simp_all add: bench_B_def benchmark_def effective_iterations_def effective_samples_def)
  have l: "length (states b') = 4" using b'(2) by (simp add: B)
  have "length (filter (\<lambda>u. fst u = (0, 1) \<and> snd (snd u) = 20) (executed res)) = 2"
    using b'(4)[rule_format, of 20] by (simp add: B samples_of_def)
  with res b'(1) b'(3) l show ?thesis
    using runnable_bench_A runnable_bench_B by auto
qed

text \<open>Without a state to execute the loop cannot be entered safely: a benchmark whose sample
  count is negative gets no state, and the first round dereferences the end of its
  \<open>_states\<close>.\<close>

lemma fill_states_none: "fill_states its 0 g sts = (g, sts)"
  by (induction its) simp_all

lemma benchmark_without_states:
  "run_benchmarks new_runner w random_device random_seed
     [(None, [(benchmark ''E'' (sleeper 1))\<lparr>samples := - 1\<rparr>])] now = Inl EndDereference"
  by (simp add: run_benchmarks_def run_seeded_def identify_baselines_def identify_baseline_def
      found_baseline_def all_benchmarks_def benchmark_def deref_def assign_def initialize_def
      fill_states_none run_loop.simps run_one_def Let_def case_prod_unfold)

section \<open>The reported averages\<close>

lemma run_seeded_registered:
  assumes run: "run_seeded r g reg now = Inr res"
  shows "deref (registered_suites res) p = None \<longleftrightarrow> deref reg p = None"
proof (rule run_seeded_phases[OF run], goal_cases)
  case (1 g1 reg2)
  obtain i j where p: "p = (i, j)" by (cases p)
  have "deref (registered_suites res) p = None \<longleftrightarrow> deref reg2 p = None"
    by (rule related_None[OF 1(4)])
  also have "\<dots> \<longleftrightarrow> deref (identify_baselines reg) p = None"
    by (rule related_None[OF 1(2)])
  also have "\<dots> \<longleftrightarrow> deref reg p = None"
    by (simp add: p deref_identify_baselines)
  finally show ?case .
qed

lemma tdiv_mult:
  assumes "0 < n"
  shows "tdiv (n * x) n = x"
proof -
  have "\<bar>n * x\<bar> div \<bar>n\<bar> = \<bar>x\<bar>" using assms by (simp add: abs_mult)
  moreover have "sgn (n * x) * sgn n = sgn x" using assms by (simp add: sgn_mult)
  ultimately show ?thesis by (simp add: tdiv_def mult_sgn_abs)
qed

lemma average_constant_rate:
  assumes rate: "\<forall>s\<in>set sts. duration_ns s = k * iterations s" and ne: "samples_of sts v \<noteq> []"
  shows "total_time_ns (average sts v) = k * v"
proof -
  have "map duration_ns (samples_of sts v) = replicate (length (samples_of sts v)) (k * v)"
    using rate by (auto simp: samples_of_def map_replicate_const[symmetric] intro!: map_cong)
  then have "sum_list (map duration_ns (samples_of sts v)) = int (length (samples_of sts v)) * (k * v)"
    by (simp add: sum_list_replicate)
  moreover have "0 < int (length (samples_of sts v))" using ne by simp
  ultimately show ?thesis by (simp add: average_def tdiv_mult)
qed

lemma ran_sleeper:
  assumes ran: "ran b0 b'" and i0: "istate b0 = 0" and pr: "proc b0 = sleeper k"
  shows "\<forall>s\<in>set (states b'). duration_ns s = k * iterations s"
proof
  fix s assume "s \<in> set (states b')"
  then obtain n where n: "n < length (states b')" "s = states b' ! n"
    by (auto simp: in_set_conv_nth)
  then have "n < length (states b0)" using ran by (simp add: ran_def)
  then obtain t t' where "proc b0 (states b0 ! n) t = Inr (states b' ! n, t')"
    using ran i0 unfolding ran_def by (metis le0)
  then have "sleeper k (states b0 ! n) t = Inr (s, t')" by (simp add: pr n)
  then show "duration_ns s = k * iterations s"
    by (auto simp: sleeper_eq split: if_splits)
qed

text \<open>
  Claim C3. In the report of a run that returns, the data of a benchmark has one entry per
  effective workload size \<open>v\<close>, in the order of the list: its \<open>total_time_ns\<close> is the sum of
  \<open>duration_ns\<close> over the states of the benchmark with \<open>iterations = v\<close>, divided (towards
  zero) by the number of those states, which is its \<open>samples\<close> (this is \<open>average\<close>). When the
  procedure of the benchmark is the loop whose body advances the fake clock by \<open>k\<close>
  nanoseconds, the \<open>total_time_ns\<close> of every entry is \<open>k\<close> times its \<open>dimension\<close>.
\<close>

theorem C3_report_averages_per_workload_size:
  assumes run: "run_benchmarks r w random_device random_seed reg now = Inr res"
    and b': "deref (registered_suites res) (i, j) = Some b'"
  shows "data (benchmarks (suites (rpt res) ! i) ! j) =
           map (average (states b')) (effective_iterations r b') \<and>
         (\<forall>k. proc b' = sleeper k \<longrightarrow>
            (\<forall>d\<in>set (data (benchmarks (suites (rpt res) ! i) ! j)).
               total_time_ns d = k * dimension d))"
proof -
  let ?g = "minstd_rand w (choose_seed random_device random_seed)"
  from run have rs: "run_seeded r ?g reg now = Inr res" by (simp add: run_benchmarks_def)
  from b' obtain b where b: "deref reg (i, j) = Some b"
    using run_seeded_registered[OF rs, of "(i, j)"] by auto
  show ?thesis
  proof (rule run_seeded_pointwise[OF rs b], goal_cases)
    case (1 b0 b'')
    have same: "b'' = b'" using 1(3) b' by simp
    note ran = 1(2)[unfolded same] and bb = 1(5)[unfolded same]
    let ?data = "data (benchmarks (suites (rpt res) ! i) ! j)"
    from bb have ne: "\<forall>v\<in>set (effective_iterations r b'). samples_of (states b') v \<noteq> []"
      unfolding build_benchmark_eq by (simp split: if_splits)
    with bb have "\<lparr>rb_name = name b', is_baseline = baseline b',
                 data = map (average (states b')) (effective_iterations r b')\<rparr> =
               benchmarks (suites (rpt res) ! i) ! j"
      unfolding build_benchmark_eq by simp
    then have d: "?data = map (average (states b')) (effective_iterations r b')"
      by (metis report_benchmark.select_convs(3))
    have "total_time_ns d = k * dimension d" if pr: "proc b' = sleeper k" and "d \<in> set ?data" for k d
    proof -
      from that(2) obtain v where v: "v \<in> set (effective_iterations r b')" "d = average (states b') v"
        unfolding d by auto
      have "proc b0 = sleeper k" using pr ran_fields(2)[OF ran] by simp
      from ran_sleeper[OF ran initialized_istate[OF 1(1)] this]
      have "total_time_ns (average (states b') v) = k * v"
        using ne v(1) by (intro average_constant_rate) auto
      then show ?thesis by (simp add: v(2) average_def)
    qed
    with d show ?case by blast
  qed
qed

text \<open>What a run leaves of the configuration of a registered benchmark.\<close>

lemma run_seeded_frame:
  assumes run: "run_seeded r g reg now = Inr res" and b: "deref reg (i, j) = Some b"
  obtains b' where "deref (registered_suites res) (i, j) = Some b'"
    "name b' = name b" "proc b' = proc b" "state_iterations b' = state_iterations b"
    "samples b' = effective_samples r b"
    "baseline b' \<longleftrightarrow> baseline b \<or> (j = 0 \<and> \<not> found_baseline (snd (reg ! i)))"
    "istate b' = length (states b')"
proof (rule run_seeded_pointwise[OF run b], goal_cases)
  case (1 b0 b')
  note f0 = initialized_fields[OF 1(2)] and f' = ran_fields[OF 1(3)]
  show ?case
  proof (rule 1(1)[OF 1(4)])
    show "name b' = name b" by (simp add: f' f0)
    show "proc b' = proc b" by (simp add: f' f0)
    show "state_iterations b' = state_iterations b" by (simp add: f' f0)
    show "samples b' = effective_samples r b" by (simp add: f' f0 effective_samples_def)
    show "baseline b' \<longleftrightarrow> baseline b \<or> (j = 0 \<and> \<not> found_baseline (snd (reg ! i)))"
      by (simp add: f' f0)
    show "istate b' = length (states b')" by (simp add: f')
  qed
qed

theorem C3_witness:
  "\<exists>res b'. run_benchmarks new_runner 64 0 42 scenario 0 = Inr res \<and>
     deref (registered_suites res) (0, 1) = Some b' \<and>
     data (benchmarks (suites (rpt res) ! 0) ! 1) =
       [average (states b') 10, average (states b') 20] \<and>
     map total_time_ns (data (benchmarks (suites (rpt res) ! 0) ! 1)) = [3000, 6000]"
proof -
  let ?g = "minstd_rand 64 (choose_seed 0 42)"
  from run_seeded_returns[OF runnable_scenario, of new_runner ?g 0]
  obtain res where rs: "run_seeded new_runner ?g scenario 0 = Inr res" by blast
  then have run: "run_benchmarks new_runner 64 0 42 scenario 0 = Inr res"
    by (simp add: run_benchmarks_def)
  have B: "deref scenario (0, 1) = Some bench_B" by (simp add: deref_scenario)
  show ?thesis
  proof (rule run_seeded_frame[OF rs B], goal_cases)
    case (1 b')
    have W: "effective_iterations new_runner b' = [10, 20]"
      by (simp add: effective_iterations_def 1(4) bench_B_def benchmark_def)
    have P: "proc b' = sleeper 300"
      by (simp add: 1(3) bench_B_def benchmark_def)
    from C3_report_averages_per_workload_size[OF run 1(1)] P
    have d: "data (benchmarks (suites (rpt res) ! 0) ! 1) =
               [average (states b') 10, average (states b') 20]"
      and t: "\<forall>d\<in>set (data (benchmarks (suites (rpt res) ! 0) ! 1)). total_time_ns d = 300 * dimension d"
      by (simp_all add: W)
    have m: "map total_time_ns (data (benchmarks (suites (rpt res) ! 0) ! 1)) = [3000, 6000]"
      using t unfolding d by (simp add: average_def)
    show ?case
      by (intro exI[of _ res] exI[of _ b'] conjI) (fact run 1(1) d m)+
  qed
qed

section \<open>The baselines after a run\<close>

lemma run_seeded_suites:
  assumes run: "run_seeded r g reg now = Inr res"
  shows "map fst (registered_suites res) = map fst reg"
    and "i < length reg \<Longrightarrow> length (snd (registered_suites res ! i)) = length (snd (reg ! i))"
proof -
  show names: "map fst (registered_suites res) = map fst reg"
  proof (rule run_seeded_phases[OF run], goal_cases)
    case (1 g1 reg2)
    from 1(4) have "map fst (registered_suites res) = map fst reg2" by (simp add: related_def)
    also from 1(2) have "\<dots> = map fst (identify_baselines reg)" by (simp add: related_def)
    finally show ?case by (simp add: map_fst_identify_baselines)
  qed
  assume i: "i < length reg"
  then have i': "i < length (registered_suites res)"
    using names by (metis length_map)
  have "j < length (snd (registered_suites res ! i)) \<longleftrightarrow> j < length (snd (reg ! i))" for j
    using run_seeded_registered[OF run, of "(i, j)"] i i' by (auto simp: deref_def split: if_splits)
  then show "length (snd (registered_suites res ! i)) = length (snd (reg ! i))"
    by (metis less_irrefl nat_neq_iff)
qed

text \<open>
  Claim C4, as the code has it. After a run, the benchmarks of a suite that are flagged
  baseline are those the user flagged, when there is one; in a non-empty suite where the user
  flagged none, the first benchmark is flagged and no other. No flag is ever cleared, so a
  suite in which the user flagged several benchmarks keeps several baselines.
\<close>

theorem C4_baselines_kept_or_first:
  assumes run: "run_benchmarks r w random_device random_seed reg now = Inr res"
    and i: "i < length reg"
  shows "map baseline (snd (registered_suites res ! i)) =
           (if snd (reg ! i) \<noteq> [] \<and> \<not> (\<exists>b\<in>set (snd (reg ! i)). baseline b)
            then True # replicate (length (snd (reg ! i)) - 1) False
            else map baseline (snd (reg ! i)))"
proof -
  let ?g = "minstd_rand w (choose_seed random_device random_seed)"
  from run have rs: "run_seeded r ?g reg now = Inr res" by (simp add: run_benchmarks_def)
  note len = run_seeded_suites(2)[OF rs i]
  have "map baseline (snd (registered_suites res ! i)) = map baseline (identify_baseline (snd (reg ! i)))"
  proof (rule nth_equalityI)
    show "length (map baseline (snd (registered_suites res ! i))) =
          length (map baseline (identify_baseline (snd (reg ! i))))"
      by (simp add: len length_identify_baseline)
  next
    fix j assume "j < length (map baseline (snd (registered_suites res ! i)))"
    then have j: "j < length (snd (reg ! i))" by (simp add: len)
    then have b: "deref reg (i, j) = Some (snd (reg ! i) ! j)" using i by (simp add: deref_def)
    show "map baseline (snd (registered_suites res ! i)) ! j =
          map baseline (identify_baseline (snd (reg ! i))) ! j"
    proof (rule run_seeded_frame[OF rs b], goal_cases)
      case (1 b')
      from 1(1) have "b' = snd (registered_suites res ! i) ! j" by (simp add: deref_Some_iff)
      then show ?case
        using 1(6) j by (simp add: len length_identify_baseline nth_identify_baseline)
    qed
  qed
  then show ?thesis by (simp only: baselines_identified)
qed

theorem C4_counterexample:
  "map baseline (snd (identify_baselines two_baselines ! 0)) = [True, True]"
  by (simp add: two_baselines_def identify_baselines_def identify_baseline_def found_baseline_def
      bench_A_def bench_B_def benchmark_def)

theorem C4_witness:
  "\<exists>res. run_benchmarks new_runner 64 0 42 two_baselines 0 = Inr res \<and>
     map baseline (snd (registered_suites res ! 0)) = [True, True]"
proof -
  have "deref two_baselines p = Some b \<longrightarrow> runnable new_runner b" for p b
    by (cases p) (auto simp: deref_def two_baselines_def less_Suc_eq nth_Cons'
        runnable_bench_A runnable_bench_B split: if_splits)
  then have "\<forall>p b. deref two_baselines p = Some b \<longrightarrow> runnable new_runner b" by blast
  from run_seeded_returns[OF this, of "minstd_rand 64 (choose_seed 0 42)" 0]
  obtain res where run: "run_benchmarks new_runner 64 0 42 two_baselines 0 = Inr res"
    by (auto simp: run_benchmarks_def)
  from C4_baselines_kept_or_first[OF this, of 0]
  have flags: "map baseline (snd (registered_suites res ! 0)) = [True, True]"
    by (simp add: two_baselines_def bench_A_def bench_B_def benchmark_def)
  show ?thesis
    by (intro exI[of _ res] conjI) (fact run flags)+
qed

section \<open>The empty registry\<close>

text \<open>
  Claim C8. With no suite registered, \<open>run_benchmarks\<close> returns a report without suites, and
  \<open>to_text\<close> of that report returns without writing a character.
\<close>

theorem C8_empty_registry_empty_report:
  "run_benchmarks r w random_device random_seed [] now =
     Inr \<lparr>rpt = \<lparr>suites = []\<rparr>, registered_suites = [], clock = now, executed = []\<rparr> \<and>
   to_text fo \<lparr>suites = []\<rparr> = Inr []"
  by (simp add: run_benchmarks_def run_seeded_def identify_baselines_def all_benchmarks_def
      run_loop.simps generate_report_def to_text_def)

section \<open>The seed\<close>

text \<open>
  Claim C5, as the code has it. Only the seed \<open>-1\<close>, which is also the default argument,
  makes the run take its seed from \<open>std::random_device\<close>. With any other seed, the other
  negative ones included, the run is the one of the engine seeded with that value, whatever
  \<open>std::random_device\<close> would return.
\<close>

theorem C5_only_minus_one_is_random:
  "run_benchmarks r w random_device (- 1) reg now =
     run_seeded r (minstd_rand w (to_int32 random_device)) reg now \<and>
   (random_seed \<noteq> - 1 \<longrightarrow>
      run_benchmarks r w random_device random_seed reg now =
        run_seeded r (minstd_rand w random_seed) reg now)"
  by (simp add: run_benchmarks_def choose_seed_def)

theorem C5_witness:
  "run_benchmarks new_runner 64 7 (- 2) scenario 0 = run_seeded new_runner 2 scenario 0 \<and>
   run_benchmarks new_runner 64 7 (- 1) scenario 0 = run_seeded new_runner 7 scenario 0"
  using C5_only_minus_one_is_random[of new_runner 64 7 scenario 0 "- 2"]
  by (simp add: minstd_rand_def to_int32_def)

theorem C5_counterexample:
  "choose_seed 7 (- 2) = - 2 \<and> choose_seed 8 (- 2) = - 2 \<and>
   choose_seed 7 (- 1) = 7 \<and> choose_seed 8 (- 1) = 8"
  by (simp add: choose_seed_def to_int32_def)

section \<open>Where a new state is placed\<close>

lemma place_append:
  "place g (xs @ ys) sts = place (fst (place g xs sts)) ys (snd (place g xs sts))"
  by (induction xs arbitrary: g sts) (simp_all add: Let_def)

lemma fill_samples_place:
  "fill_samples n iters g sts = place g (replicate n (new_state iters)) sts"
  by (induction n arbitrary: g sts) (simp_all add: rnd_def emplace_def Let_def)

lemma fill_states_place:
  "fill_states its n g sts =
     place g (concat (map (\<lambda>iters. replicate n (new_state iters)) its)) sts"
proof (induction its arbitrary: g sts)
  case Nil
  show ?case by simp
next
  case (Cons iters rest)
  show ?case
    by (simp add: Cons fill_samples_place place_append case_prod_unfold Let_def)
qed

lemma initialize_place:
  "initialize r g b =
     (fst (place g (generated r b) (states b)),
      b\<lparr>samples := effective_samples r b,
        states := snd (place g (generated r b) (states b)), istate := 0\<rparr>)"
  by (simp add: initialize_def Let_def case_prod_unfold fill_states_place generated_def
      effective_samples_def)

lemma engine_after_assign:
  assumes "deref reg p = Some b0" and "p \<notin> set ps"
  shows "engine_after r (assign reg p b) g ps = engine_after r reg g ps"
  using assms(2)
proof (induction ps arbitrary: g)
  case Nil
  show ?case by (simp add: engine_after_def)
next
  case (Cons q ps)
  then have "q \<noteq> p" by auto
  then have "deref (assign reg p b) q = deref reg q"
    by (simp add: deref_assign[OF assms(1)])
  moreover have "engine_after r (assign reg p b) g' ps = engine_after r reg g' ps" for g'
    using Cons by simp
  ultimately show ?case
    unfolding engine_after_def by simp
qed

lemma initialize_all_place:
  assumes "distinct ps" and "\<forall>p\<in>set ps. deref reg p \<noteq> None"
  shows "\<exists>reg'. initialize_all r ps g reg = Inr (engine_after r reg g ps, reg') \<and>
           (\<forall>q. deref reg' q =
              (if q \<in> set ps
               then map_option
                      (\<lambda>b. snd (initialize r (engine_after r reg g (takeWhile (\<lambda>p. p \<noteq> q) ps)) b))
                      (deref reg q)
               else deref reg q))"
  using assms
proof (induction ps arbitrary: g reg)
  case Nil
  show ?case by (simp add: engine_after_def)
next
  case (Cons p ps)
  from Cons.prems obtain b where b: "deref reg p = Some b" by auto
  define g1 where "g1 = fst (initialize r g b)"
  define b1 where "b1 = snd (initialize r g b)"
  let ?reg1 = "assign reg p b1"
  have p: "p \<notin> set ps" using Cons.prems by simp
  have d: "deref ?reg1 q = (if q = p then Some b1 else deref reg q)" for q
    by (rule deref_assign[OF b])
  have g1: "g1 = fst (place g (generated r b) (states b))"
    by (simp add: g1_def initialize_place)
  have "distinct ps" "\<forall>q\<in>set ps. deref ?reg1 q \<noteq> None"
    using Cons.prems by (auto simp: d)
  from Cons.IH[OF this, of g1] obtain reg' where
    run: "initialize_all r ps g1 ?reg1 = Inr (engine_after r ?reg1 g1 ps, reg')" and
    each: "\<forall>q. deref reg' q =
              (if q \<in> set ps
               then map_option
                      (\<lambda>b. snd (initialize r (engine_after r ?reg1 g1 (takeWhile (\<lambda>p. p \<noteq> q) ps)) b))
                      (deref ?reg1 q)
               else deref ?reg1 q)"
    by blast
  have step: "engine_after r reg g (p # xs) = engine_after r reg g1 xs" for xs
    by (simp add: engine_after_def b g1)
  have same: "engine_after r ?reg1 g1 xs = engine_after r reg g1 xs" if "p \<notin> set xs" for xs
    using that by (rule engine_after_assign[OF b])
  have 1: "initialize_all r (p # ps) g reg = Inr (engine_after r reg g (p # ps), reg')"
    using run by (simp add: b case_prod_unfold g1_def[symmetric] b1_def[symmetric] step same[OF p])
  have 2: "deref reg' q =
              (if q \<in> set (p # ps)
               then map_option
                      (\<lambda>b. snd (initialize r (engine_after r reg g (takeWhile (\<lambda>p. p \<noteq> q) (p # ps))) b))
                      (deref reg q)
               else deref reg q)" for q
  proof (cases "q = p")
    case True
    then have "deref reg' q = Some b1" using spec[OF each, of p] p by (simp add: d)
    then show ?thesis using True b by (simp add: b1_def engine_after_def)
  next
    case False
    have "p \<notin> set (takeWhile (\<lambda>p. p \<noteq> q) ps)"
      using p by (meson set_takeWhileD)
    then have "engine_after r ?reg1 g1 (takeWhile (\<lambda>p. p \<noteq> q) ps) =
          engine_after r reg g (takeWhile (\<lambda>p. p \<noteq> q) (p # ps))"
      using False by (simp add: same step)
    then show ?thesis using spec[OF each, of q] False by (simp add: d)
  qed
  from 1 2 show ?case by blast
qed

lemma place_baseline:
  "place g (generated r (b\<lparr>baseline := x\<rparr>)) (states (b\<lparr>baseline := x\<rparr>)) =
   place g (generated r b) (states b)"
  by simp

lemma engine_after_identify:
  "engine_after r (identify_baselines reg) g ps = engine_after r reg g ps"
proof (induction ps arbitrary: g)
  case Nil
  show ?case by (simp add: engine_after_def)
next
  case (Cons p ps)
  obtain i j where p: "p = (i, j)" by (cases p)
  have "(case deref (identify_baselines reg) p of None \<Rightarrow> g
         | Some b \<Rightarrow> fst (place g (generated r b) (states b))) =
        (case deref reg p of None \<Rightarrow> g
         | Some b \<Rightarrow> fst (place g (generated r b) (states b)))"
    by (cases "deref reg (i, j)") (simp_all add: p deref_identify_baselines)
  moreover have "engine_after r (identify_baselines reg) g' ps = engine_after r reg g' ps" for g'
    by (rule Cons)
  ultimately show ?case unfolding engine_after_def by simp
qed

lemma run_seeded_placed:
  assumes run: "run_seeded r g reg now = Inr res" and b: "deref reg q = Some b"
  shows "mset (filter (\<lambda>u. fst u = q) (executed res)) =
         mset (map (\<lambda>k. (q, k,
                 iterations (snd (place (engine_after r reg g
                                   (takeWhile (\<lambda>p. p \<noteq> q) (all_benchmarks reg)))
                               (generated r b) (states b)) ! k)))
               [0..<length (snd (place (engine_after r reg g
                                   (takeWhile (\<lambda>p. p \<noteq> q) (all_benchmarks reg)))
                               (generated r b) (states b)))])"
proof (rule run_seeded_phases[OF run], goal_cases)
  case (1 g1 reg2)
  let ?reg1 = "identify_baselines reg"
  let ?ps = "all_benchmarks reg"
  let ?G = "engine_after r reg g (takeWhile (\<lambda>p. p \<noteq> q) ?ps)"
  let ?placed = "snd (place ?G (generated r b) (states b))"
  obtain i j where q: "q = (i, j)" by (cases q)
  have qin: "q \<in> set ?ps" using b by (simp add: in_all_benchmarks)
  have valid: "\<forall>p\<in>set ?ps. deref ?reg1 p \<noteq> None"
    using in_all_benchmarks[of _ ?reg1] by (simp add: all_benchmarks_identify)
  from initialize_all_place[OF distinct_all_benchmarks valid, of r g]
  obtain reg' where
    init: "initialize_all r ?ps g ?reg1 = Inr (engine_after r ?reg1 g ?ps, reg')" and
    each: "\<forall>q. deref reg' q =
              (if q \<in> set ?ps
               then map_option
                      (\<lambda>b. snd (initialize r (engine_after r ?reg1 g (takeWhile (\<lambda>p. p \<noteq> q) ?ps)) b))
                      (deref ?reg1 q)
               else deref ?reg1 q)"
    by blast
  from init 1(1) have "reg2 = reg'" by simp
  obtain x where b1: "deref ?reg1 q = Some (b\<lparr>baseline := x\<rparr>)"
    using b by (simp add: q deref_identify_baselines)
  have "deref reg2 q = Some (snd (initialize r ?G (b\<lparr>baseline := x\<rparr>)))"
    using spec[OF each, of q] qin b1 by (simp add: \<open>reg2 = reg'\<close> engine_after_identify)
  then obtain b0 where b0: "deref reg2 q = Some b0" "istate b0 = 0" "states b0 = ?placed"
    by (simp add: initialize_place)
  have "mset (filter (\<lambda>u. fst u = q) (executed res)) =
        filter_mset (\<lambda>u. fst u = q) (mset (executed res))"
    by simp
  also have "\<dots> = mset (pending reg2 q)"
    unfolding 1(5) using filter_pending_sum[OF distinct_all_benchmarks, of q reg2 reg] qin
    by simp
  also have "\<dots> = mset (map (\<lambda>k. (q, k, iterations (?placed ! k))) [0..<length ?placed])"
    by (simp add: pending_def b0)
  finally show ?case .
qed

lemma generated_bench_W:
  "generated r bench_W =
     [new_state 1, new_state 1, new_state 2, new_state 2, new_state 3, new_state 3]"
  "states bench_W = []"
  "effective_samples r bench_W = 2"
  by (simp_all add: generated_def effective_samples_def effective_iterations_def bench_W_def
      benchmark_def numeral_2_eq_2)

lemma place_at:
  assumes "(48271 * g) mod 2147483647 = v" and "length sts + 1 = n" and "v mod n = k"
    and "take k sts @ [x] @ drop k sts = sts'"
  shows "place g (x # new) sts = place v new sts'"
  unfolding place.simps Let_def assms ..

lemma place_W_42:
  "place 42 [new_state 1, new_state 1, new_state 2, new_state 2, new_state 3, new_state 3] [] =
     (2076553157,
      [new_state 1, new_state 1, new_state 3, new_state 2, new_state 2, new_state 3])"
proof -
  have "place 42 [new_state 1, new_state 1, new_state 2, new_state 2, new_state 3, new_state 3] [] =
        place 2027382 [new_state 1, new_state 2, new_state 2, new_state 3, new_state 3] [new_state 1]"
    by (rule place_at[where n = 1 and k = 0]) simp_all
  also have "\<dots> =
        place 1226992407 [new_state 2, new_state 2, new_state 3, new_state 3] [new_state 1, new_state 1]"
    by (rule place_at[where n = 2 and k = 1]) simp_all
  also have "\<dots> =
        place 551494037 [new_state 2, new_state 3, new_state 3] [new_state 1, new_state 1, new_state 2]"
    by (rule place_at[where n = 3 and k = 2]) simp_all
  also have "\<dots> =
        place 961371815 [new_state 3, new_state 3] [new_state 1, new_state 1, new_state 2, new_state 2]"
    by (rule place_at[where n = 4 and k = 3]) simp_all
  also have "\<dots> =
        place 1404753842 [new_state 3] [new_state 1, new_state 1, new_state 3, new_state 2, new_state 2]"
    by (rule place_at[where n = 5 and k = 2]) simp_all
  also have "\<dots> =
        place 2076553157 [] [new_state 1, new_state 1, new_state 3, new_state 2, new_state 2, new_state 3]"
    by (rule place_at[where n = 6 and k = 5]) simp_all
  finally show ?thesis by (simp only: place.simps(1))
qed

lemma place_W_2027382:
  "place 2027382
     [new_state 1, new_state 1, new_state 2, new_state 2, new_state 3, new_state 3] [] =
     (1350734175,
      [new_state 1, new_state 1, new_state 3, new_state 3, new_state 2, new_state 2])"
proof -
  have "place 2027382 [new_state 1, new_state 1, new_state 2, new_state 2, new_state 3, new_state 3] [] =
        place 1226992407 [new_state 1, new_state 2, new_state 2, new_state 3, new_state 3] [new_state 1]"
    by (rule place_at[where n = 1 and k = 0]) simp_all
  also have "\<dots> =
        place 551494037 [new_state 2, new_state 2, new_state 3, new_state 3] [new_state 1, new_state 1]"
    by (rule place_at[where n = 2 and k = 1]) simp_all
  also have "\<dots> =
        place 961371815 [new_state 2, new_state 3, new_state 3] [new_state 1, new_state 1, new_state 2]"
    by (rule place_at[where n = 3 and k = 2]) simp_all
  also have "\<dots> =
        place 1404753842 [new_state 3, new_state 3] [new_state 1, new_state 1, new_state 2, new_state 2]"
    by (rule place_at[where n = 4 and k = 2]) simp_all
  also have "\<dots> =
        place 2076553157 [new_state 3] [new_state 1, new_state 1, new_state 3, new_state 2, new_state 2]"
    by (rule place_at[where n = 5 and k = 2]) simp_all
  also have "\<dots> =
        place 1350734175 [] [new_state 1, new_state 1, new_state 3, new_state 3, new_state 2, new_state 2]"
    by (rule place_at[where n = 6 and k = 3]) simp_all
  finally show ?thesis by (simp only: place.simps(1))
qed

lemma runnable_bench_W: "runnable r bench_W"
  by (auto simp: runnable_def bench_W_def benchmark_def effective_samples_def
      effective_iterations_def honours_sleeper)

lemma deref_shuffled:
  "deref shuffled p = Some b \<longleftrightarrow> p = (0, 0) \<and> b = bench_A \<or> p = (0, 1) \<and> b = bench_W"
  by (cases p) (auto simp: deref_def shuffled_def less_Suc_eq nth_Cons' split: if_splits)

lemma place_A_42: "place 42 (generated r bench_A) (states bench_A) = (2027382, [new_state 10])"
proof -
  have g: "generated r bench_A = [new_state 10]" "states bench_A = []"
    by (simp_all add: generated_def effective_samples_def effective_iterations_def bench_A_def
        benchmark_def)
  have "place 42 [new_state 10] [] = place 2027382 [] [new_state 10]"
    by (rule place_at[where n = 1 and k = 0]) simp_all
  then show ?thesis unfolding g by (simp only: place.simps(1))
qed

lemma engine_before_W:
  "engine_after new_runner shuffled (minstd_rand 64 (choose_seed 0 42))
     (takeWhile (\<lambda>p. p \<noteq> (0, 1)) (all_benchmarks shuffled)) = 2027382"
proof -
  have "all_benchmarks shuffled = [(0, 0), (0, 1)]"
    by (simp add: all_benchmarks_def shuffled_def upt_rec_numeral)
  moreover have "minstd_rand 64 (choose_seed 0 42) = 42"
    by (simp add: minstd_rand_def choose_seed_def)
  moreover have "deref shuffled (0, 0) = Some bench_A" by (simp add: deref_shuffled)
  ultimately show ?thesis
    by (simp add: engine_after_def place_A_42 del: place.simps)
qed

text \<open>
  Claim C7. The initialisation of a benchmark is the placement of the specification: it
  inserts the generated states of the benchmark, in the order of their generation, into the
  sequence of that benchmark, each at the position the seeded engine gives modulo the
  number of states held so far plus one. The initialisation loop over the registry hands
  the engine from one benchmark to the next and gives every benchmark exactly its own
  placement; it changes nothing else. In a run that returns, the states a benchmark executes
  are, offset by offset, the states of its placement.
\<close>

theorem C7_states_placed_by_engine:
  "initialize r g b =
     (fst (place g (generated r b) (states b)),
      b\<lparr>samples := effective_samples r b,
        states := snd (place g (generated r b) (states b)), istate := 0\<rparr>) \<and>
   (\<exists>reg'. initialize_all r (all_benchmarks reg) g reg =
             Inr (engine_after r reg g (all_benchmarks reg), reg') \<and>
           map fst reg' = map fst reg \<and>
           (\<forall>q. deref reg' q =
              map_option
                (\<lambda>b. snd (initialize r
                         (engine_after r reg g (takeWhile (\<lambda>p. p \<noteq> q) (all_benchmarks reg))) b))
                (deref reg q))) \<and>
   (run_benchmarks r w random_device random_seed reg now = Inr res \<longrightarrow>
    deref reg q = Some c \<longrightarrow>
      (let placed = snd (place (engine_after r reg
                                 (minstd_rand w (choose_seed random_device random_seed))
                                 (takeWhile (\<lambda>p. p \<noteq> q) (all_benchmarks reg)))
                           (generated r c) (states c))
       in mset (filter (\<lambda>u. fst u = q) (executed res)) =
          mset (map (\<lambda>k. (q, k, iterations (placed ! k))) [0..<length placed])))"
proof -
  let ?ps = "all_benchmarks reg"
  have valid: "\<forall>p\<in>set ?ps. deref reg p \<noteq> None"
    by (simp add: in_all_benchmarks)
  from initialize_all_place[OF distinct_all_benchmarks valid, of r g]
  obtain reg' where
    init: "initialize_all r ?ps g reg = Inr (engine_after r reg g ?ps, reg')" and
    each: "\<forall>q. deref reg' q =
              (if q \<in> set ?ps
               then map_option
                      (\<lambda>b. snd (initialize r (engine_after r reg g (takeWhile (\<lambda>p. p \<noteq> q) ?ps)) b))
                      (deref reg q)
               else deref reg q)"
    by blast
  have all: "deref reg' q =
              map_option
                (\<lambda>b. snd (initialize r (engine_after r reg g (takeWhile (\<lambda>p. p \<noteq> q) ?ps)) b))
                (deref reg q)" for q
  proof (cases "q \<in> set ?ps")
    case True
    then show ?thesis using spec[OF each, of q] by simp
  next
    case False
    then have "deref reg q = None" by (simp add: in_all_benchmarks)
    then show ?thesis using spec[OF each, of q] False by simp
  qed
  have names: "map fst reg' = map fst reg"
    using initialize_all_related[OF distinct_all_benchmarks valid, of r g] init
    by (auto simp: related_def)
  have B: "\<exists>reg'. initialize_all r ?ps g reg = Inr (engine_after r reg g ?ps, reg') \<and>
           map fst reg' = map fst reg \<and>
           (\<forall>q. deref reg' q =
              map_option
                (\<lambda>b. snd (initialize r (engine_after r reg g (takeWhile (\<lambda>p. p \<noteq> q) ?ps)) b))
                (deref reg q))"
    using init names all by blast
  have C: "run_benchmarks r w random_device random_seed reg now = Inr res \<longrightarrow>
    deref reg q = Some c \<longrightarrow>
      (let placed = snd (place (engine_after r reg
                                 (minstd_rand w (choose_seed random_device random_seed))
                                 (takeWhile (\<lambda>p. p \<noteq> q) (all_benchmarks reg)))
                           (generated r c) (states c))
       in mset (filter (\<lambda>u. fst u = q) (executed res)) =
          mset (map (\<lambda>k. (q, k, iterations (placed ! k))) [0..<length placed]))"
    unfolding Let_def run_benchmarks_def using run_seeded_placed by blast
  show ?thesis
    by (intro conjI) (rule initialize_place, rule B, rule C)
qed

theorem C7_witness:
  "initialize new_runner 42 bench_W =
     (2076553157,
      bench_W\<lparr>samples := 2,
        states := [new_state 1, new_state 1, new_state 3, new_state 2, new_state 2, new_state 3],
        istate := 0\<rparr>) \<and>
   (\<exists>res. run_benchmarks new_runner 64 0 42 shuffled 0 = Inr res \<and>
      mset (filter (\<lambda>u. fst u = (0, 1)) (executed res)) =
        mset [((0, 1), 0, 1), ((0, 1), 1, 1), ((0, 1), 2, 3),
              ((0, 1), 3, 3), ((0, 1), 4, 2), ((0, 1), 5, 2)])"
proof -
  have all: "\<forall>p b. deref shuffled p = Some b \<longrightarrow> runnable new_runner b"
    by (auto simp: deref_shuffled runnable_bench_A runnable_bench_W)
  from run_seeded_returns[OF all, of "minstd_rand 64 (choose_seed 0 42)" 0]
  obtain res where run: "run_benchmarks new_runner 64 0 42 shuffled 0 = Inr res"
    by (auto simp: run_benchmarks_def)
  have W: "deref shuffled (0, 1) = Some bench_W" by (simp add: deref_shuffled)
  note c7 = C7_states_placed_by_engine[of new_runner 42 bench_W shuffled 64 0 42 0 res "(0, 1)"
      bench_W]
  from c7 have A: "initialize new_runner 42 bench_W =
     (2076553157,
      bench_W\<lparr>samples := 2,
        states := [new_state 1, new_state 1, new_state 3, new_state 2, new_state 2, new_state 3],
        istate := 0\<rparr>)"
    by (simp add: generated_bench_W place_W_42 del: place.simps)
  have C0: "mset (filter (\<lambda>u. fst u = (0, 1)) (executed res)) =
      mset (map (\<lambda>k. ((0, 1), k,
                  iterations ([new_state 1, new_state 1, new_state 3,
                               new_state 3, new_state 2, new_state 2] ! k)))
             [0..<length [new_state 1, new_state 1, new_state 3,
                          new_state 3, new_state 2, new_state 2]])"
    using c7[THEN conjunct2, THEN conjunct2, rule_format, OF run W]
    unfolding engine_before_W generated_bench_W place_W_2027382 Let_def snd_conv .
  have C: "mset (filter (\<lambda>u. fst u = (0, 1)) (executed res)) =
        mset [((0, 1), 0, 1), ((0, 1), 1, 1), ((0, 1), 2, 3),
              ((0, 1), 3, 3), ((0, 1), 4, 2), ((0, 1), 5, 2)]"
    unfolding C0 by (simp add: new_state_def eval_nat_numeral del: mset_upt)
  have "\<exists>res. run_benchmarks new_runner 64 0 42 shuffled 0 = Inr res \<and>
      mset (filter (\<lambda>u. fst u = (0, 1)) (executed res)) =
        mset [((0, 1), 0, 1), ((0, 1), 1, 1), ((0, 1), 2, 3),
              ((0, 1), 3, 3), ((0, 1), 4, 2), ((0, 1), 5, 2)]"
    by (rule exI[of _ res], intro conjI) (fact run C)+
  with A show ?thesis by (rule conjI)
qed

section \<open>The interleaving depends on the seed and the registry only\<close>

lemma agree_refl: "agree reg reg"
  by (simp add: agree_def)

lemma run_one_Inr_at:
  assumes one: "run_one g ws reg now = Inr (g', ws', reg1, now', u)" and ne: "ws \<noteq> []"
  obtains b s' where
    "deref reg (ws ! (fst (rnd g) mod length ws)) = Some b" "istate b < length (states b)"
    "g' = snd (rnd g)"
    "ws' = (if Suc (istate b) = length (states b) then erase (fst (rnd g) mod length ws) ws else ws)"
    "reg1 = assign reg (ws ! (fst (rnd g) mod length ws))
              (b\<lparr>states := (states b)[istate b := s'], istate := Suc (istate b)\<rparr>)"
    "u = (ws ! (fst (rnd g) mod length ws), istate b, iterations (states b ! istate b))"
proof -
  obtain v g1 where r: "rnd g = (v, g1)" by (cases "rnd g")
  let ?i = "v mod length ws"
  from one obtain b where b: "deref reg (ws ! ?i) = Some b"
    by (auto simp: run_one_def r Let_def split: option.splits)
  from one b have lt: "istate b < length (states b)"
    by (auto simp: run_one_def r Let_def split: if_splits)
  from one b lt obtain s' where pr: "proc b (states b ! istate b) now = Inr (s', now')"
    by (auto simp: run_one_def r Let_def split: sum.splits)
  from one have
    "g' = g1"
    "ws' = (if Suc (istate b) = length (states b) then erase ?i ws else ws)"
    "reg1 = assign reg (ws ! ?i) (b\<lparr>states := (states b)[istate b := s'], istate := Suc (istate b)\<rparr>)"
    "u = (ws ! ?i, istate b, iterations (states b ! istate b))"
    using lt by (simp_all add: run_one_def r b pr Let_def)
  with b lt show thesis using that[of b s'] by (simp add: r)
qed

lemma agree_step:
  assumes ag: "agree ra rb"
    and a: "deref ra p = Some a" and b: "deref rb p = Some b"
  shows "agree (assign ra p (a\<lparr>states := (states a)[istate a := sa], istate := Suc (istate a)\<rparr>))
               (assign rb p (b\<lparr>states := (states b)[istate b := sb], istate := Suc (istate b)\<rparr>))"
proof -
  from ag a b have ab: "istate a = istate b" "length (states a) = length (states b)"
    "\<And>k. istate a \<le> k \<Longrightarrow> k < length (states a) \<Longrightarrow>
         iterations (states a ! k) = iterations (states b ! k)"
    unfolding agree_def by blast+
  show ?thesis
    unfolding agree_def
  proof (intro allI conjI impI)
    fix q
    show "(deref (assign ra p (a\<lparr>states := (states a)[istate a := sa], istate := Suc (istate a)\<rparr>)) q = None) =
          (deref (assign rb p (b\<lparr>states := (states b)[istate b := sb], istate := Suc (istate b)\<rparr>)) q = None)"
    proof -
      from ag have "deref ra q = None \<longleftrightarrow> deref rb q = None" unfolding agree_def by blast
      then show ?thesis by (simp add: deref_assign[OF a] deref_assign[OF b])
    qed
  next
    fix q a' b'
    assume a': "deref (assign ra p (a\<lparr>states := (states a)[istate a := sa], istate := Suc (istate a)\<rparr>)) q = Some a'"
      and b': "deref (assign rb p (b\<lparr>states := (states b)[istate b := sb], istate := Suc (istate b)\<rparr>)) q = Some b'"
    have "istate a' = istate b' \<and> length (states a') = length (states b') \<and>
          (\<forall>k. istate a' \<le> k \<longrightarrow> k < length (states a') \<longrightarrow>
               iterations (states a' ! k) = iterations (states b' ! k))"
    proof (cases "q = p")
      case True
      then have "a' = a\<lparr>states := (states a)[istate a := sa], istate := Suc (istate a)\<rparr>"
        "b' = b\<lparr>states := (states b)[istate b := sb], istate := Suc (istate b)\<rparr>"
        using a' b' by (simp_all add: deref_assign[OF a] deref_assign[OF b])
      then show ?thesis using ab by (auto simp: nth_list_update)
    next
      case False
      then have "deref ra q = Some a'" "deref rb q = Some b'"
        using a' b' by (simp_all add: deref_assign[OF a] deref_assign[OF b])
      then show ?thesis using ag unfolding agree_def by blast
    qed
    then show "istate a' = istate b'" "length (states a') = length (states b')"
      "\<And>k. istate a' \<le> k \<Longrightarrow> k < length (states a') \<Longrightarrow>
         iterations (states a' ! k) = iterations (states b' ! k)"
      by blast+
  qed
qed

lemma run_loop_same_order:
  assumes "agree ra rb"
    and "run_loop g ws ra now_a tr = Inr (ra', na, tra)"
    and "run_loop g ws rb now_b tr = Inr (rb', nb, trb)"
  shows "tra = trb"
  using assms
proof (induction "remaining ra" arbitrary: g ws ra rb now_a now_b tr rule: less_induct)
  case less
  show ?case
  proof (cases "ws = []")
    case True
    then show ?thesis
      using less.prems(2,3) by (simp add: run_loop.simps)
  next
    case False
    from less.prems(2) obtain g1 ws1 ra1 na1 ua where
      one_a: "run_one g ws ra now_a = Inr (g1, ws1, ra1, na1, ua)" and
      run_a: "run_loop g1 ws1 ra1 na1 (tr @ [ua]) = Inr (ra', na, tra)"
      by (subst (asm) run_loop.simps) (auto simp: False split: sum.splits)
    from less.prems(3) obtain g2 ws2 rb1 nb1 ub where
      one_b: "run_one g ws rb now_b = Inr (g2, ws2, rb1, nb1, ub)" and
      run_b: "run_loop g2 ws2 rb1 nb1 (tr @ [ub]) = Inr (rb', nb, trb)"
      by (subst (asm) run_loop.simps) (auto simp: False split: sum.splits)
    let ?p = "ws ! (fst (rnd g) mod length ws)"
    show ?thesis
    proof (rule run_one_Inr_at[OF one_a False], goal_cases)
      case A: (1 a sa)
      show ?case
      proof (rule run_one_Inr_at[OF one_b False], goal_cases)
        case B: (1 b sb)
        from less.prems(1) A(1) B(1) have ab: "istate a = istate b"
          "length (states a) = length (states b)"
          "iterations (states a ! istate a) = iterations (states b ! istate b)"
          using A(2) unfolding agree_def by (blast, blast, metis le_refl)
        have g: "g2 = g1" by (simp add: A(3) B(3))
        have ws: "ws2 = ws1" by (simp add: A(4) B(4) ab)
        have u: "ub = ua" unfolding A(6) B(6) using ab by simp
        have ag: "agree ra1 rb1"
          unfolding A(5) B(5) by (rule agree_step[OF less.prems(1) A(1) B(1)])
        have "remaining ra1 < remaining ra"
          using one_a by (rule run_one_remaining)
        from less.hyps[OF this ag run_a run_b[unfolded g ws u]]
        show ?case .
      qed
    qed
  qed
qed

text \<open>
  Claim C6. Two calls with the same seed other than \<open>-1\<close> on the same registry that both
  return have executed the same sequence of units (benchmark, offset of the state,
  \<open>iterations\<close>), whatever \<open>std::random_device\<close> would have returned and whatever the clock
  showed when they started.
\<close>

theorem C6_same_seed_same_order:
  assumes "random_seed \<noteq> - 1"
    and "run_benchmarks r w random_device random_seed reg now = Inr res"
    and "run_benchmarks r w random_device' random_seed reg now' = Inr res'"
  shows "executed res = executed res'"
proof -
  let ?g = "minstd_rand w random_seed"
  from assms have a: "run_seeded r ?g reg now = Inr res" and b: "run_seeded r ?g reg now' = Inr res'"
    by (simp_all add: run_benchmarks_def choose_seed_def)
  show ?thesis
  proof (rule run_seeded_phases[OF a], goal_cases)
    case A: (1 g1 reg2)
    show ?case
    proof (rule run_seeded_phases[OF b], goal_cases)
      case B: (1 g1' reg2')
      from A(1) B(1) have "g1' = g1" "reg2' = reg2" by simp_all
      with B(3) have "run_loop g1 (all_benchmarks reg) reg2 now' [] =
                      Inr (registered_suites res', clock res', executed res')"
        by simp
      from run_loop_same_order[OF agree_refl A(3) this] show ?case .
    qed
  qed
qed

theorem C6_witness:
  "\<exists>res res'. run_benchmarks new_runner 64 7 42 scenario 0 = Inr res \<and>
     run_benchmarks new_runner 64 8 42 scenario 1000 = Inr res' \<and>
     executed res = executed res'"
proof -
  from run_seeded_returns[OF runnable_scenario, of new_runner "minstd_rand 64 (choose_seed 7 42)" 0]
  obtain res where a: "run_benchmarks new_runner 64 7 42 scenario 0 = Inr res"
    by (auto simp: run_benchmarks_def)
  from run_seeded_returns[OF runnable_scenario, of new_runner "minstd_rand 64 (choose_seed 8 42)" 1000]
  obtain res' where b: "run_benchmarks new_runner 64 8 42 scenario 1000 = Inr res'"
    by (auto simp: run_benchmarks_def)
  have e: "executed res = executed res'"
    by (rule C6_same_seed_same_order[OF _ a b]) simp
  show ?thesis
    by (rule exI[of _ res], rule exI[of _ res'], intro conjI) (fact a b e)+
qed

section \<open>Workload sizes listed more than once\<close>

lemma run_seeded_leaves:
  assumes all: "\<forall>p b. deref reg p = Some b \<longrightarrow> runnable r b"
  obtains res where "run_seeded r g reg now = Inr res"
    "\<And>i j b. deref reg (i, j) = Some b \<Longrightarrow> \<exists>b'. left_by r res i j b b'"
proof -
  from run_seeded_returns[OF all, of g now]
  obtain res where res: "run_seeded r g reg now = Inr res" by blast
  have "\<exists>b'. left_by r res i j b b'" if b: "deref reg (i, j) = Some b" for i j b
  proof (rule run_seeded_pointwise[OF res b], goal_cases)
    case (1 b0 b')
    have rb: "runnable r b" using all b by blast
    note o = run_outcome[OF rb 1(1) 1(2)] and rr = run_result_of[OF rb 1(1) 1(2) 1(4)]
    have s: "samples b' = effective_samples r b"
      using initialized_fields(5)[OF 1(1)] ran_fields(5)[OF 1(2)]
      by (simp add: effective_samples_def)
    from 1(5) o(6) have "data (benchmarks (suites (rpt res) ! i) ! j) =
       map (average (states b')) (effective_iterations r b)"
      by (metis report_benchmark.select_convs(3) sum.inject(2))
    then have "left_by r res i j b b'"
      unfolding left_by_def using 1(3) o(3,4,5) s rr(1,2,4) by blast
    then show ?case by blast
  qed
  with res show thesis by (rule that)
qed

lemma dimension_average [simp]: "dimension (average sts v) = v"
  by (simp add: average_def)

lemma ps_samples_average [simp]: "ps_samples (average sts v) = int (length (samples_of sts v))"
  by (simp add: average_def)

lemma count_dimensions:
  "length (filter (\<lambda>d. dimension d = v) (map (average sts) W)) = count_list W v"
  by (induction W) simp_all

text \<open>
  Claim C10. Take a runnable registry and a benchmark in it without states, with effective
  workload sizes \<open>W\<close> and effective sample count \<open>s\<close>. The run returns, and the data of the
  benchmark has one entry per position of \<open>W\<close>, so \<open>m\<close> entries of dimension \<open>v\<close> when \<open>v\<close>
  stands at \<open>m\<close> positions. Each of them is the average over all the states with
  \<open>iterations = v\<close>, of which there are \<open>m * s\<close>, and \<open>m * s\<close> is the \<open>samples\<close> of each.
\<close>

theorem C10_duplicate_sizes_share_states:
  assumes "\<forall>p b. deref reg p = Some b \<longrightarrow> runnable r b"
    and "deref reg (i, j) = Some b" and "states b = []"
  shows "\<exists>res b'. run_benchmarks r w random_device random_seed reg now = Inr res \<and>
     deref (registered_suites res) (i, j) = Some b' \<and>
     data (benchmarks (suites (rpt res) ! i) ! j) =
       map (average (states b')) (effective_iterations r b) \<and>
     (\<forall>v. length (filter (\<lambda>d. dimension d = v) (data (benchmarks (suites (rpt res) ! i) ! j))) =
          count_list (effective_iterations r b) v) \<and>
     (\<forall>v. length (samples_of (states b') v) =
          count_list (effective_iterations r b) v * nat (effective_samples r b)) \<and>
     (\<forall>d\<in>set (data (benchmarks (suites (rpt res) ! i) ! j)).
        ps_samples d =
          int (count_list (effective_iterations r b) (dimension d) * nat (effective_samples r b)))"
proof (rule run_seeded_leaves[OF assms(1), of "minstd_rand w (choose_seed random_device random_seed)" now],
    goal_cases)
  case (1 res)
  from 1(2)[OF assms(2)] obtain b' where l: "left_by r res i j b b'" by blast
  let ?data = "data (benchmarks (suites (rpt res) ! i) ! j)"
  let ?W = "effective_iterations r b"
  from l have d: "?data = map (average (states b')) ?W"
    and c: "\<forall>v. length (samples_of (states b') v) = count_list ?W v * nat (effective_samples r b)"
    and p: "deref (registered_suites res) (i, j) = Some b'"
    unfolding left_by_def by (simp_all add: assms(3) samples_of_def)
  have run: "run_benchmarks r w random_device random_seed reg now = Inr res"
    by (simp add: run_benchmarks_def 1(1))
  have n: "\<forall>v. length (filter (\<lambda>d. dimension d = v) ?data) = count_list ?W v"
    unfolding d by (simp only: count_dimensions simp_thms)
  have s: "\<forall>d\<in>set ?data. ps_samples d =
          int (count_list ?W (dimension d) * nat (effective_samples r b))"
    unfolding d using c by auto
  show ?case
    by (rule exI[of _ res], rule exI[of _ b'], intro conjI) (fact run p d n c s)+
qed

lemma runnable_bench_D: "runnable r bench_D"
  by (auto simp: runnable_def bench_D_def benchmark_def effective_samples_def
      effective_iterations_def honours_sleeper)

lemma runnable_duplicates: "\<forall>p b. deref duplicates p = Some b \<longrightarrow> runnable r b"
proof -
  note runnable_bench_D[of r]
  moreover have "deref duplicates p = Some b \<longrightarrow> b = bench_D" for p b
    by (cases p) (auto simp: deref_def duplicates_def split: if_splits)
  ultimately show ?thesis by blast
qed

theorem C10_witness:
  "runnable new_runner bench_D \<and> states bench_D = [] \<and>
   (\<exists>res b'. run_benchmarks new_runner 64 0 42 duplicates 0 = Inr res \<and>
     deref (registered_suites res) (0, 0) = Some b' \<and>
     data (benchmarks (suites (rpt res) ! 0) ! 0) =
       [average (states b') 3, average (states b') 5, average (states b') 3] \<and>
     length (samples_of (states b') 3) = 4 \<and>
     map ps_samples (data (benchmarks (suites (rpt res) ! 0) ! 0)) = [4, 2, 4])"
proof -
  have D: "deref duplicates (0, 0) = Some bench_D" by (simp add: deref_def duplicates_def)
  have W: "effective_iterations new_runner bench_D = [3, 5, 3]"
    "effective_samples new_runner bench_D = 2" "states bench_D = []"
    by (simp_all add: bench_D_def benchmark_def effective_iterations_def effective_samples_def)
  from C10_duplicate_sizes_share_states[OF runnable_duplicates D W(3), of new_runner 64 0 42 0]
  obtain res b' where
    run: "run_benchmarks new_runner 64 0 42 duplicates 0 = Inr res" and
    p: "deref (registered_suites res) (0, 0) = Some b'" and
    d: "data (benchmarks (suites (rpt res) ! 0) ! 0) =
       [average (states b') 3, average (states b') 5, average (states b') 3]" and
    c: "\<forall>v. length (samples_of (states b') v) = count_list [3, 5, 3] v * 2"
    unfolding W by auto
  have c3: "length (samples_of (states b') 3) = 4" and c5: "length (samples_of (states b') 5) = 2"
    using c by simp_all
  have m: "map ps_samples (data (benchmarks (suites (rpt res) ! 0) ! 0)) = [4, 2, 4]"
    unfolding d by (simp add: c3 c5)
  have "\<exists>res b'. run_benchmarks new_runner 64 0 42 duplicates 0 = Inr res \<and>
     deref (registered_suites res) (0, 0) = Some b' \<and>
     data (benchmarks (suites (rpt res) ! 0) ! 0) =
       [average (states b') 3, average (states b') 5, average (states b') 3] \<and>
     length (samples_of (states b') 3) = 4 \<and>
     map ps_samples (data (benchmarks (suites (rpt res) ! 0) ! 0)) = [4, 2, 4]"
    by (rule exI[of _ res], rule exI[of _ b'], intro conjI) (fact run p d c3 m)+
  then show ?thesis using runnable_bench_D W(3) by simp
qed

section \<open>A second call on the same registry\<close>

text \<open>
  Claim C9. Take a runnable registry whose benchmarks have no states yet, and call
  \<open>run_benchmarks\<close> twice, the second time on the registry as the first call left it.
  Both calls return. After the first call a benchmark with effective workload sizes \<open>W\<close> and
  effective sample count \<open>s\<close> has \<open>s\<close> in \<open>_samples\<close> (the default when it was 0), is flagged
  baseline if it was or if it is the first of a suite without baseline, and holds \<open>|W| * s\<close>
  states. The second call adds as many without removing any, executes all \<open>2 * |W| * s\<close> of
  them, and reports for every entry twice the sample count that the first call would:
  \<open>2 * s\<close> per occurrence of the dimension in \<open>W\<close>.
\<close>

theorem C9_second_call_keeps_and_reruns_states:
  assumes "\<forall>p b. deref reg p = Some b \<longrightarrow> runnable r b"
    and "\<forall>p b. deref reg p = Some b \<longrightarrow> states b = []"
  shows "\<exists>res1 res2.
     run_benchmarks r w random_device random_seed reg now = Inr res1 \<and>
     run_benchmarks r w random_device' random_seed' (registered_suites res1) now' = Inr res2 \<and>
     (\<forall>i j b. deref reg (i, j) = Some b \<longrightarrow>
        (\<exists>b1 b2.
           deref (registered_suites res1) (i, j) = Some b1 \<and>
           deref (registered_suites res2) (i, j) = Some b2 \<and>
           samples b1 = effective_samples r b \<and>
           (baseline b1 \<longleftrightarrow> baseline b \<or> (j = 0 \<and> \<not> found_baseline (snd (reg ! i)))) \<and>
           length (states b1) = length (effective_iterations r b) * nat (effective_samples r b) \<and>
           length (states b2) = 2 * (length (effective_iterations r b) * nat (effective_samples r b)) \<and>
           mset (map (\<lambda>u. fst (snd u)) (filter (\<lambda>u. fst u = (i, j)) (executed res2))) =
             mset [0..<2 * (length (effective_iterations r b) * nat (effective_samples r b))] \<and>
           map (\<lambda>d. (dimension d, ps_samples d)) (data (benchmarks (suites (rpt res2) ! i) ! j)) =
             map (\<lambda>v. (v, int (2 * (count_list (effective_iterations r b) v *
                                       nat (effective_samples r b)))))
               (effective_iterations r b)))"
proof (rule run_seeded_leaves[OF assms(1), of "minstd_rand w (choose_seed random_device random_seed)" now],
    goal_cases)
  case first: (1 res1)
  let ?reg1 = "registered_suites res1"
  have all1: "\<forall>p b1. deref ?reg1 p = Some b1 \<longrightarrow> runnable r b1"
  proof (intro allI impI)
    fix p b1 assume b1: "deref ?reg1 p = Some b1"
    obtain i j where p: "p = (i, j)" by (cases p)
    from b1 obtain b where "deref reg (i, j) = Some b"
      using run_seeded_registered[OF first(1), of "(i, j)"] by (auto simp: p)
    from first(2)[OF this] obtain b' where "left_by r res1 i j b b'" by blast
    then show "runnable r b1" using b1 by (simp add: left_by_def p)
  qed
  show ?case
  proof (rule run_seeded_leaves[OF all1, of "minstd_rand w (choose_seed random_device' random_seed')" now'],
      goal_cases)
    case second: (1 res2)
    have run1: "run_benchmarks r w random_device random_seed reg now = Inr res1"
      by (simp add: run_benchmarks_def first(1))
    have run2: "run_benchmarks r w random_device' random_seed' ?reg1 now' = Inr res2"
      by (simp add: run_benchmarks_def second(1))
    have each: "\<exists>b1 b2.
           deref (registered_suites res1) (i, j) = Some b1 \<and>
           deref (registered_suites res2) (i, j) = Some b2 \<and>
           samples b1 = effective_samples r b \<and>
           (baseline b1 \<longleftrightarrow> baseline b \<or> (j = 0 \<and> \<not> found_baseline (snd (reg ! i)))) \<and>
           length (states b1) = length (effective_iterations r b) * nat (effective_samples r b) \<and>
           length (states b2) = 2 * (length (effective_iterations r b) * nat (effective_samples r b)) \<and>
           mset (map (\<lambda>u. fst (snd u)) (filter (\<lambda>u. fst u = (i, j)) (executed res2))) =
             mset [0..<2 * (length (effective_iterations r b) * nat (effective_samples r b))] \<and>
           map (\<lambda>d. (dimension d, ps_samples d)) (data (benchmarks (suites (rpt res2) ! i) ! j)) =
             map (\<lambda>v. (v, int (2 * (count_list (effective_iterations r b) v *
                                       nat (effective_samples r b)))))
               (effective_iterations r b)"
      if b: "deref reg (i, j) = Some b" for i j b
    proof -
      let ?W = "effective_iterations r b" and ?s = "nat (effective_samples r b)"
      have fresh: "states b = []" using assms(2) b by blast
      from first(2)[OF b] obtain b1 where l1: "left_by r res1 i j b b1" by blast
      then have p1: "deref ?reg1 (i, j) = Some b1" by (simp add: left_by_def)
      from second(2)[OF p1] obtain b2 where l2: "left_by r res2 i j b1 b2" by blast
      from l1 have W1: "effective_iterations r b1 = ?W" and s1: "effective_samples r b1 = effective_samples r b"
        and sm: "samples b1 = effective_samples r b"
        and len1: "length (states b1) = length ?W * ?s"
        and c1: "\<forall>v. length (samples_of (states b1) v) = count_list ?W v * ?s"
        unfolding left_by_def by (simp_all add: fresh samples_of_def)
      from l2 have p2: "deref (registered_suites res2) (i, j) = Some b2"
        and len2: "length (states b2) = 2 * (length ?W * ?s)"
        and c2: "\<forall>v. length (samples_of (states b2) v) = 2 * (count_list ?W v * ?s)"
        and d2: "data (benchmarks (suites (rpt res2) ! i) ! j) = map (average (states b2)) ?W"
        and off: "mset (map (\<lambda>u. fst (snd u)) (filter (\<lambda>u. fst u = (i, j)) (executed res2))) =
             mset [0..<length (states b2)]"
        unfolding left_by_def W1 s1 by (simp_all add: len1 c1)
      have bl: "baseline b1 \<longleftrightarrow> baseline b \<or> (j = 0 \<and> \<not> found_baseline (snd (reg ! i)))"
      proof (rule run_seeded_frame[OF first(1) b], goal_cases)
        case (1 b')
        then show ?case using p1 by simp
      qed
      have ps: "map (\<lambda>d. (dimension d, ps_samples d)) (data (benchmarks (suites (rpt res2) ! i) ! j)) =
             map (\<lambda>v. (v, int (2 * (count_list ?W v * ?s)))) ?W"
        unfolding d2 using c2 by simp
      show ?thesis
        by (rule exI[of _ b1], rule exI[of _ b2], intro conjI)
          (fact p1 p2 sm bl len1 len2 off[unfolded len2] ps)+
    qed
    show ?case
      by (rule exI[of _ res1], rule exI[of _ res2], intro conjI allI impI) (fact run1 run2 each)+
  qed
qed

theorem C9_witness:
  "runnable new_runner bench_A \<and> runnable new_runner bench_B \<and>
   states bench_A = [] \<and> states bench_B = [] \<and>
   (\<exists>res1 res2 b1 b2.
     run_benchmarks new_runner 64 0 42 scenario 0 = Inr res1 \<and>
     run_benchmarks new_runner 64 0 42 (registered_suites res1) 19000 = Inr res2 \<and>
     deref (registered_suites res1) (0, 1) = Some b1 \<and>
     deref (registered_suites res2) (0, 1) = Some b2 \<and>
     samples b1 = 2 \<and> length (states b1) = 4 \<and> length (states b2) = 8 \<and>
     mset (map (\<lambda>u. fst (snd u)) (filter (\<lambda>u. fst u = (0, 1)) (executed res2))) = mset [0..<8] \<and>
     map (\<lambda>d. (dimension d, ps_samples d)) (data (benchmarks (suites (rpt res2) ! 0) ! 1)) =
       [(10, 4), (20, 4)])"
proof -
  have fresh: "\<forall>p b. deref scenario p = Some b \<longrightarrow> states b = []"
    by (auto simp: deref_scenario bench_A_def bench_B_def benchmark_def)
  have B: "deref scenario (0, 1) = Some bench_B" by (simp add: deref_scenario)
  have W: "effective_iterations new_runner bench_B = [10, 20]"
    "effective_samples new_runner bench_B = 2"
    by (simp_all add: bench_B_def benchmark_def effective_iterations_def effective_samples_def)
  from C9_second_call_keeps_and_reruns_states[OF runnable_scenario fresh, of new_runner 64 0 42 0 0 42 19000]
  obtain res1 res2 where
    run1: "run_benchmarks new_runner 64 0 42 scenario 0 = Inr res1" and
    run2: "run_benchmarks new_runner 64 0 42 (registered_suites res1) 19000 = Inr res2" and
    each: "\<forall>i j b. deref scenario (i, j) = Some b \<longrightarrow>
        (\<exists>b1 b2.
           deref (registered_suites res1) (i, j) = Some b1 \<and>
           deref (registered_suites res2) (i, j) = Some b2 \<and>
           samples b1 = effective_samples new_runner b \<and>
           (baseline b1 \<longleftrightarrow> baseline b \<or> (j = 0 \<and> \<not> found_baseline (snd (scenario ! i)))) \<and>
           length (states b1) = length (effective_iterations new_runner b) * nat (effective_samples new_runner b) \<and>
           length (states b2) = 2 * (length (effective_iterations new_runner b) * nat (effective_samples new_runner b)) \<and>
           mset (map (\<lambda>u. fst (snd u)) (filter (\<lambda>u. fst u = (i, j)) (executed res2))) =
             mset [0..<2 * (length (effective_iterations new_runner b) * nat (effective_samples new_runner b))] \<and>
           map (\<lambda>d. (dimension d, ps_samples d)) (data (benchmarks (suites (rpt res2) ! i) ! j)) =
             map (\<lambda>v. (v, int (2 * (count_list (effective_iterations new_runner b) v *
                                       nat (effective_samples new_runner b)))))
               (effective_iterations new_runner b))"
    by blast
  from each[rule_format, OF B] obtain b1 b2 where
    p1: "deref (registered_suites res1) (0, 1) = Some b1" and
    p2: "deref (registered_suites res2) (0, 1) = Some b2" and
    sm: "samples b1 = 2" and
    l1: "length (states b1) = 4" and
    l2: "length (states b2) = 8" and
    off: "mset (map (\<lambda>u. fst (snd u)) (filter (\<lambda>u. fst u = (0, 1)) (executed res2))) = mset [0..<8]" and
    ps: "map (\<lambda>d. (dimension d, ps_samples d)) (data (benchmarks (suites (rpt res2) ! 0) ! 1)) =
       [(10, 4), (20, 4)]"
    unfolding W by auto
  have "\<exists>res1 res2 b1 b2.
     run_benchmarks new_runner 64 0 42 scenario 0 = Inr res1 \<and>
     run_benchmarks new_runner 64 0 42 (registered_suites res1) 19000 = Inr res2 \<and>
     deref (registered_suites res1) (0, 1) = Some b1 \<and>
     deref (registered_suites res2) (0, 1) = Some b2 \<and>
     samples b1 = 2 \<and> length (states b1) = 4 \<and> length (states b2) = 8 \<and>
     mset (map (\<lambda>u. fst (snd u)) (filter (\<lambda>u. fst u = (0, 1)) (executed res2))) = mset [0..<8] \<and>
     map (\<lambda>d. (dimension d, ps_samples d)) (data (benchmarks (suites (rpt res2) ! 0) ! 1)) =
       [(10, 4), (20, 4)]"
    by (rule exI[of _ res1], rule exI[of _ res2], rule exI[of _ b1], rule exI[of _ b2], intro conjI)
      (fact run1 run2 p1 p2 sm l1 l2 off ps)+
  moreover have "states bench_A = []" "states bench_B = []"
    by (simp_all add: bench_A_def bench_B_def benchmark_def)
  ultimately show ?thesis using runnable_bench_A runnable_bench_B by simp
qed

end
